theory Spec2Isabelle
  imports Main "HOL-Library.Word" "HOL-Library.Multiset"
begin

text \<open>
  A model of the membership engine of ifrit, a Fireflies overlay written in Go: the
  binary search that keeps a ring sorted (\<open>node/sort.go\<close>), the gossip handlers that merge
  notes, accusations and certificates into the view (\<open>Spread\<close>, \<open>evalNote\<close>,
  \<open>evalAccusation\<close>, \<open>evalCertificate\<close>), and \<open>AppendGossipData\<close>. The definitions come
  first, each written after the source function it stands for; the properties follow.
\<close>

section \<open>The sorted ring slice: \<open>node/sort.go\<close>\<close>

text \<open>
  A ring is a Go slice \<open>[]*ringId\<close> kept in position order. \<open>insert\<close> and \<open>search\<close> are
  binary searches over two \<open>int\<close> indices, \<open>currIdx\<close> and \<open>maxIdx\<close>. The indices are
  modelled as \<open>int\<close>: a slice of pointers cannot be long enough for \<open>currIdx + maxIdx\<close> to
  leave the 64-bit range. Every index expression of the source is bounds-checked in
  the model, and an access out of range is the run-time panic \<open>IndexOutOfRange\<close>.
  The entries are non-nil pointers, so a slice is a list of ring ids. The source's
  variable \<open>slice\<close> is \<open>sl\<close> here (\<open>slice\<close> is a constant of the word library).
\<close>

text \<open>
  Modelled from the spec: the type \<open>ringId\<close> and its method \<open>cmpId\<close> are not in
  \<open>node/sort.go\<close>. The spec gives a ring id's position as an unsigned big integer and the
  comparison as numeric; \<open>cmpId\<close> answers \<open>-1\<close>, \<open>0\<close> or \<open>1\<close> as \<open>big.Int.Cmp\<close> does.
\<close>

type_synonym ringId = nat

definition cmpId :: "ringId \<Rightarrow> ringId \<Rightarrow> int" where
  "cmpId a b = (if a < b then - 1 else if a = b then 0 else 1)"

text \<open>
  What a call can end with besides a result: the error value \<open>errIdNotFound\<close>, and the two
  run-time panics of an index or slice expression out of range and of a nil pointer
  dereferenced.
\<close>

datatype sort_error = errIdNotFound | IndexOutOfRange | NilDereference

text \<open>Go's \<open>slice[i]\<close>: a panic unless \<open>0 \<le> i < len(slice)\<close>.\<close>

definition index :: "'a list \<Rightarrow> int \<Rightarrow> sort_error + 'a" where
  "index sl i =
     (if 0 \<le> i \<and> i < int (length sl) then Inr (sl ! nat i) else Inl IndexOutOfRange)"

text \<open>Go's \<open>slice[i] = v\<close>, with the same check.\<close>

definition assign :: "'a list \<Rightarrow> int \<Rightarrow> 'a \<Rightarrow> sort_error + 'a list" where
  "assign sl i v =
     (if 0 \<le> i \<and> i < int (length sl) then Inr (sl[nat i := v]) else Inl IndexOutOfRange)"

text \<open>Go's integer quotient \<open>a / b\<close>, which truncates towards zero.\<close>

definition quo :: "int \<Rightarrow> int \<Rightarrow> int" where
  "quo a b = sgn a * sgn b * (\<bar>a\<bar> div \<bar>b\<bar>)"

text \<open>
  The two statements \<open>slice = append(slice, nil); copy(slice[currIdx+1:], slice[currIdx:])\<close>
  of \<open>insert\<close>, on a slice of \<open>n\<close> entries. After the append the slice has \<open>n + 1\<close>
  entries, the last one nil. The slice expressions panic unless \<open>0 \<le> currIdx \<le> n\<close>.
  \<open>copy\<close> moves \<open>min (n - currIdx) (n + 1 - currIdx) = n - currIdx\<close> entries, as \<open>memmove\<close>
  does: the entries \<open>currIdx .. n - 1\<close> land on \<open>currIdx + 1 .. n\<close> and entry \<open>currIdx\<close>
  stays. For \<open>currIdx < n\<close> the nil is overwritten, and the slice is the old one with
  entry \<open>currIdx\<close> doubled. For \<open>currIdx = n\<close> nothing is copied and the nil stays at
  \<open>currIdx\<close>, where the next statement, \<open>slice[currIdx].cmpId(newId)\<close>, dereferences it.
\<close>

definition append_copy :: "'a list \<Rightarrow> int \<Rightarrow> sort_error + 'a list" where
  "append_copy sl currIdx =
     (if currIdx < 0 \<or> int (length sl) < currIdx then Inl IndexOutOfRange
      else if currIdx = int (length sl) then Inl NilDereference
      else Inr (take (nat currIdx + 1) sl @ drop (nat currIdx) sl))"

text \<open>The \<open>for\<close> loop of \<open>insert\<close>, from the state \<open>(currIdx, maxIdx)\<close>.\<close>

function insert_loop :: "ringId list \<Rightarrow> ringId \<Rightarrow> int \<Rightarrow> int \<Rightarrow> sort_error + (ringId list \<times> int)" where
  "insert_loop sl newId currIdx maxIdx =
     (if currIdx \<ge> maxIdx then
        (case append_copy sl currIdx of
           Inl e \<Rightarrow> Inl e
         | Inr sl1 \<Rightarrow>
             (case index sl1 currIdx of
                Inl e \<Rightarrow> Inl e
              | Inr x \<Rightarrow>
                  (let currIdx1 = (if cmpId x newId = - 1 then currIdx + 1 else currIdx) in
                   case assign sl1 currIdx1 newId of
                     Inl e \<Rightarrow> Inl e
                   | Inr sl2 \<Rightarrow> Inr (sl2, currIdx1))))
      else
        (let mid = quo (currIdx + maxIdx) 2 in
         case index sl mid of
           Inl e \<Rightarrow> Inl e
         | Inr x \<Rightarrow>
             if cmpId x newId = - 1 then insert_loop sl newId (mid + 1) maxIdx
             else insert_loop sl newId currIdx (mid - 1)))"
  by pat_completeness auto
termination
  by (relation "measure (\<lambda>(sl, newId, currIdx, maxIdx). nat (maxIdx - currIdx))")
    (auto simp: quo_def sgn_if abs_if index_def split: if_splits)

declare insert_loop.simps [simp del]

definition insert_ring :: "ringId list \<Rightarrow> ringId \<Rightarrow> sort_error + (ringId list \<times> int)" where
  \<comment> \<open>\<open>insert\<close> of \<open>node/sort.go\<close> (the name \<open>insert\<close> is the set operation in HOL)\<close>
  "insert_ring sl newId =
     (let length1 = int (length sl); currIdx = 0; maxIdx = length1 - 1 in
      if maxIdx = - 1 then Inr (sl @ [newId], currIdx)
      else insert_loop sl newId currIdx maxIdx)"

text \<open>
  The \<open>for\<close> loop of \<open>search\<close>. The source returns \<open>(currIdx, nil)\<close>, \<open>(mid, nil)\<close> or
  \<open>(-1, errIdNotFound)\<close>: the index is \<open>Inr\<close>, the error is \<open>Inl errIdNotFound\<close>.
\<close>

function search_loop :: "ringId list \<Rightarrow> ringId \<Rightarrow> int \<Rightarrow> int \<Rightarrow> sort_error + int" where
  "search_loop sl searchId currIdx maxIdx =
     (if currIdx \<ge> maxIdx then
        (case index sl currIdx of
           Inl e \<Rightarrow> Inl e
         | Inr x \<Rightarrow> if cmpId x searchId = 0 then Inr currIdx else Inl errIdNotFound)
      else
        (let mid = quo (currIdx + maxIdx) 2 in
         case index sl mid of
           Inl e \<Rightarrow> Inl e
         | Inr x \<Rightarrow>
             (let cmp = cmpId x searchId in
              if cmp = - 1 then search_loop sl searchId (mid + 1) maxIdx
              else if cmp = 1 then search_loop sl searchId currIdx (mid - 1)
              else Inr mid)))"
  by pat_completeness auto
termination
  by (relation "measure (\<lambda>(sl, searchId, currIdx, maxIdx). nat (maxIdx - currIdx))")
    (auto simp: quo_def sgn_if abs_if index_def split: if_splits)

declare search_loop.simps [simp del]

definition search :: "ringId list \<Rightarrow> ringId \<Rightarrow> sort_error + int" where
  "search sl searchId =
     (let length1 = int (length sl); currIdx = 0; maxIdx = length1 - 1 in
      search_loop sl searchId currIdx maxIdx)"

subsection \<open>Calls in sequence, and the place of an insertion\<close>

text \<open>
  Successive calls \<open>slice, _ = insert(slice, id)\<close>, one for each id of a list, as a ring
  makes them when peers are added one after the other.
\<close>

fun insert_all :: "ringId list \<Rightarrow> ringId list \<Rightarrow> sort_error + ringId list" where
  "insert_all sl [] = Inr sl"
| "insert_all sl (x # xs) =
     (case insert_ring sl x of Inl e \<Rightarrow> Inl e | Inr (sl1, i) \<Rightarrow> insert_all sl1 xs)"

text \<open>
  \<open>insert_pos sl x k\<close>: the index \<open>k\<close> splits \<open>sl\<close> into the entries below \<open>x\<close> and the
  entries not below \<open>x\<close>.
\<close>

definition insert_pos :: "ringId list \<Rightarrow> ringId \<Rightarrow> nat \<Rightarrow> bool" where
  "insert_pos sl x k =
     (k \<le> length sl \<and> list_all (\<lambda>y. y < x) (take k sl) \<and> list_all (\<lambda>y. x \<le> y) (drop k sl))"

text \<open>
  Modelled from the spec: the ring's \<open>remove\<close> is not in \<open>node/sort.go\<close>. The spec gives it as
  ``binary-search then delete; fails with \<open>IdNotFound\<close> if absent'': the entry at the index
  that \<open>search\<close> answers is cut out, as \<open>append(slice[:idx], slice[idx+1:]...)\<close> does.
\<close>

definition remove_ring :: "ringId list \<Rightarrow> ringId \<Rightarrow> sort_error + ringId list" where
  "remove_ring sl x =
     (case search sl x of
        Inl e \<Rightarrow> Inl e
      | Inr idx \<Rightarrow> Inr (take (nat idx) sl @ drop (nat idx + 1) sl))"

section \<open>The membership state: notes, accusations, peers and the node\<close>

text \<open>
  The gossip handlers (\<open>Spread\<close>, \<open>mergeNotes\<close>, \<open>mergeAccusations\<close>, \<open>mergeCertificates\<close>,
  \<open>evalAccusation\<close>, \<open>evalNote\<close>, \<open>evalCertificate\<close>) and \<open>AppendGossipData\<close> are methods of
  \<open>*Node\<close>. They run under the node's locks, one call at a time; a call is a function
  from the node's state to the new state. Epochs are Go's \<open>uint64\<close>: \<open>epoch + 1\<close> wraps
  and \<open><\<close>, \<open>>\<close> compare unsigned, as on \<open>64 word\<close>.
\<close>

type_synonym bytes = "8 word list"
type_synonym uint64 = "64 word"

text \<open>The pair \<open>(r, s)\<close> of an ECDSA signature: \<open>gossip.Signature\<close> on the wire, \<open>signature\<close> in the node.\<close>

record signature =
  sig_r :: bytes
  sig_s :: bytes

text \<open>The protobuf messages \<open>gossip.Note\<close> and \<open>gossip.Accusation\<close>, read through their getters.\<close>

record gossip_Note =
  note_Epoch :: uint64
  note_Id :: bytes
  note_Signature :: signature

record gossip_Accusation =
  acc_Epoch :: uint64
  acc_Accuser :: bytes
  acc_Accused :: bytes
  acc_Signature :: signature

text \<open>The structs \<open>note\<close> and \<open>accusation\<close> as \<open>evalNote\<close> and \<open>evalAccusation\<close> build them.\<close>

record note_struct =
  n_peerId :: bytes
  n_epoch :: uint64
  n_signature :: signature

record accusation =
  a_peerId :: bytes
  a_epoch :: uint64
  a_accuser :: bytes
  a_signature :: signature

text \<open>The fields of \<open>x509.Certificate\<close> that the handlers read.\<close>

record certificate =
  SubjectKeyId :: bytes
  Locality :: "string list"
  Raw :: bytes

text \<open>
  The struct \<open>peer\<close>. The maps of the view hold pointers \<open>*peer\<close>: a peer object lives in
  the store \<open>peers\<close> of the node, at an address, and the maps hold addresses, so that a
  note or an accusation set through one map is seen through the other. The store is
  total; only the addresses that the maps hold or that \<open>nextRef\<close> hands out are read.
\<close>

record peer =
  key :: bytes
  peerId :: bytes
  addr :: string
  publicKey :: bytes
  cert :: certificate
  recentNote :: "note_struct option"
  accusation :: "accusation option"

text \<open>The struct \<open>timeout\<close>, without its time stamp (the clock is not part of the state).\<close>

record timeout =
  observer :: nat
  lastNote :: "note_struct option"
  taddr :: string

text \<open>
  The node. \<open>self\<close> is the embedded local \<open>*peer\<close> (\<open>n.peerId\<close>, \<open>n.recentNote\<close>); \<open>viewMap\<close>,
  \<open>liveMap\<close> and \<open>timeoutMap\<close> are the maps of the embedded \<open>*view\<close>, keyed by the peer id as
  a string. \<open>rebuttals\<close> counts the calls of \<open>n.getProtocol().Rebuttal(n)\<close>, whose effect is
  an outgoing gossip round.
\<close>

record node =
  self :: peer
  localAddr :: string
  peers :: "nat \<Rightarrow> peer"
  nextRef :: nat
  viewMap :: "bytes \<rightharpoonup> nat"
  liveMap :: "bytes \<rightharpoonup> nat"
  timeoutMap :: "bytes \<rightharpoonup> timeout"
  gossipDataMap :: "bytes \<rightharpoonup> bytes"
  rebuttals :: nat

datatype node_error =
    errNoPeerInCtx | errNoTLSInfo | errNoCert | errNeighbourPeerNotFound | errNotMyNeighbour
  | errInvalidPeerInformation | errNoData | OtherError string | PanicIndexOutOfRange

text \<open>
  The bytes that are signed: \<open>[]byte(fmt.Sprintf("%v", tmp))\<close> for a \<open>gossip.Note\<close> holding
  epoch and id, or a \<open>gossip.Accusation\<close> holding epoch, accuser and accused.
\<close>

datatype payload = NotePayload uint64 bytes | AccusationPayload uint64 bytes bytes

text \<open>
  What the handlers call and the sources at hand do not hold is a parameter of the model,
  one field each: the signature check \<open>validateSignature(r, s, b, publicKey)\<close> (the error, or whether
  the signature is valid), the signing of the local note, the ring queries of the view
  (\<open>isHigherRank\<close>, \<open>isPrev\<close>, \<open>shouldBeNeighbours\<close>, \<open>findNeighbours\<close>, which read the
  node's view), \<open>newPeer(nil, cert)\<close>, \<open>x509.ParseCertificate\<close>, and the condition
  under which \<open>p.setAccusation(a)\<close> returns an error. \<open>isPrev\<close> takes the addresses of the
  two peers.
\<close>

record env =
  validateSignature :: "bytes \<Rightarrow> bytes \<Rightarrow> payload \<Rightarrow> bytes \<Rightarrow> node_error + bool"
  sign :: "payload \<Rightarrow> signature"
  isHigherRank :: "node \<Rightarrow> bytes \<Rightarrow> bytes \<Rightarrow> bool"
  isPrev :: "node \<Rightarrow> nat \<Rightarrow> nat \<Rightarrow> bool"
  shouldBeNeighbours :: "node \<Rightarrow> bytes \<Rightarrow> bool"
  findNeighbours :: "node \<Rightarrow> bytes \<Rightarrow> bytes list"
  newPeer :: "certificate \<Rightarrow> node_error + peer"
  parseCertificate :: "bytes \<Rightarrow> node_error + certificate"
  setAccusationErr :: "peer \<Rightarrow> accusation \<Rightarrow> node_error option"

subsection \<open>The accessors of the view and of a peer\<close>

text \<open>
  The handlers reach the state through methods of \<open>view\<close>, \<open>peer\<close> and \<open>Node\<close> that are not
  in the sources at hand. Each is modelled from the spec's data model as the read or the
  write of the one field its name says.
\<close>

text \<open>
  Modelled from the spec: \<open>getLivePeer\<close>, \<open>getViewPeer\<close> and \<open>viewPeerExist\<close> of the view are
  missing. The spec gives the view as ``\<open>viewMap\<close>: id \<open>\<rightarrow>\<close> Peer, \<open>liveMap\<close>: id \<open>\<rightarrow>\<close> Peer'';
  a lookup answers the peer or nil.
\<close>

definition getLivePeer :: "node \<Rightarrow> bytes \<Rightarrow> nat option" where
  "getLivePeer n k = liveMap n k"

definition getViewPeer :: "node \<Rightarrow> bytes \<Rightarrow> nat option" where
  "getViewPeer n k = viewMap n k"

definition viewPeerExist :: "node \<Rightarrow> bytes \<Rightarrow> bool" where
  "viewPeerExist n k = (viewMap n k \<noteq> None)"

text \<open>
  Modelled from the spec: \<open>getNote\<close>, \<open>setNote\<close>, \<open>getAccusation\<close> and \<open>removeAccusation\<close> of a
  peer are missing. The spec gives a peer as holding its ``current best note'' and its
  ``current accusation if any''; replacing the note and clearing the accusation are
  the writes of those fields.
\<close>

definition getNote :: "node \<Rightarrow> nat \<Rightarrow> note_struct option" where
  "getNote n p = recentNote (peers n p)"

definition setNote :: "node \<Rightarrow> nat \<Rightarrow> note_struct \<Rightarrow> node" where
  "setNote n p nt = n\<lparr>peers := (peers n)(p := (peers n p)\<lparr>recentNote := Some nt\<rparr>)\<rparr>"

definition getAccusation :: "node \<Rightarrow> nat \<Rightarrow> accusation option" where
  "getAccusation n p = accusation (peers n p)"

definition removeAccusation :: "node \<Rightarrow> nat \<Rightarrow> node" where
  "removeAccusation n p = n\<lparr>peers := (peers n)(p := (peers n p)\<lparr>accusation := None\<rparr>)\<rparr>"

text \<open>
  Modelled from the spec: \<open>setAccusation\<close> of a peer is missing. The spec has ``record the
  accusation on the peer''. The source checks the error it returns; when it returns
  one is the parameter \<open>setAccusationErr\<close>, and without an error the accusation is
  the peer's accusation.
\<close>

definition setAccusation :: "env \<Rightarrow> node \<Rightarrow> nat \<Rightarrow> accusation \<Rightarrow> node_error + node" where
  "setAccusation env n p a =
     (case setAccusationErr env (peers n p) a of
        Some err \<Rightarrow> Inl err
      | None \<Rightarrow> Inr (n\<lparr>peers := (peers n)(p := (peers n p)\<lparr>accusation := Some a\<rparr>)\<rparr>))"

text \<open>
  Modelled from the spec: \<open>addViewPeer\<close> and \<open>addLivePeer\<close> of the view are missing. The spec
  lists ``\<open>addViewPeer(p)\<close>, \<open>addLivePeer(p)\<close>'' as the view's mutations of its two maps: the
  peer is entered under its key.
\<close>

definition addViewPeer :: "node \<Rightarrow> nat \<Rightarrow> node" where
  "addViewPeer n p = n\<lparr>viewMap := (viewMap n)(key (peers n p) \<mapsto> p)\<rparr>"

definition addLivePeer :: "node \<Rightarrow> nat \<Rightarrow> node" where
  "addLivePeer n p = n\<lparr>liveMap := (liveMap n)(key (peers n p) \<mapsto> p)\<rparr>"

text \<open>
  Modelled from the spec: \<open>timerExist\<close>, \<open>startTimer\<close> and \<open>deleteTimeout\<close> are missing. The
  spec has ``\<open>timeoutMap\<close>: id \<open>\<rightarrow>\<close> Timeout'', ``a timeout entry is created'' when an
  accusation is recorded and ``the timeout entry is cleared'' on a rebuttal.
\<close>

definition timerExist :: "node \<Rightarrow> bytes \<Rightarrow> bool" where
  "timerExist n k = (timeoutMap n k \<noteq> None)"

definition startTimer :: "node \<Rightarrow> bytes \<Rightarrow> note_struct option \<Rightarrow> nat \<Rightarrow> string \<Rightarrow> node" where
  "startTimer n k nt obs a =
     n\<lparr>timeoutMap := (timeoutMap n)(k \<mapsto> \<lparr>observer = obs, lastNote = nt, taddr = a\<rparr>)\<rparr>"

definition deleteTimeout :: "node \<Rightarrow> bytes \<Rightarrow> node" where
  "deleteTimeout n k = n\<lparr>timeoutMap := (timeoutMap n)(k := None)\<rparr>"

text \<open>
  Modelled from the spec: \<open>setEpoch\<close> of the node is missing. The spec gives the local
  state as holding \<open>currentEpoch\<close> and the signed self note, and has the node ``resign
  local note'' when the epoch changes: \<open>setEpoch(e)\<close> makes \<open>e\<close> the epoch of the local
  note and signs the note again. The value \<open>e\<close> is what the caller passes.
\<close>

definition setEpoch :: "env \<Rightarrow> node \<Rightarrow> uint64 \<Rightarrow> node" where
  "setEpoch env n newEpoch =
     n\<lparr>self := (self n)\<lparr>recentNote :=
        Some \<lparr>n_peerId = peerId (self n), n_epoch = newEpoch,
              n_signature = sign env (NotePayload newEpoch (peerId (self n)))\<rparr>\<rparr>\<rparr>"

text \<open>
  Modelled from the spec: the protocol's \<open>Rebuttal\<close> is missing. The spec has ``schedule
  immediate gossip ("rebuttal")'': an outgoing gossip round, counted in \<open>rebuttals\<close>.
\<close>

definition Rebuttal :: "node \<Rightarrow> node" where
  "Rebuttal n = n\<lparr>rebuttals := rebuttals n + 1\<rparr>"

text \<open>
  A peer object that \<open>newPeer\<close> returns is new: it is put into the store at the next free
  address.
\<close>

definition allocPeer :: "node \<Rightarrow> peer \<Rightarrow> node \<times> nat" where
  "allocPeer n p = (n\<lparr>peers := (peers n)(nextRef n := p), nextRef := nextRef n + 1\<rparr>, nextRef n)"

text \<open>The local epoch, \<open>n.recentNote.epoch\<close>.\<close>

definition localEpoch :: "node \<Rightarrow> uint64 option" where
  "localEpoch n = map_option n_epoch (recentNote (self n))"

subsection \<open>\<open>evalAccusation\<close>\<close>

text \<open>
  The handler returns nothing. The model returns the new state and which of the
  source's exits was taken, in the order of the source. \<open>n.peerId.equal\<close> is equality of
  the id bytes, and the key of a peer is its id as a string.
\<close>

datatype acc_outcome =
    Rebutted | AccusedNotLive | Stale | AccuserNotLive | LowerRank | AccSignatureError
  | AccInvalidSignature | NotPredecessor | SetAccusationError | Added

definition evalAccusation :: "env \<Rightarrow> node \<Rightarrow> gossip_Accusation \<Rightarrow> node \<times> acc_outcome" where
  "evalAccusation env n a =
     (let sign1 = acc_Signature a; epoch = acc_Epoch a;
          accuser = acc_Accuser a; accused = acc_Accused a;
          accusedKey = accused; accuserKey = accuser in
      if peerId (self n) = accused then (Rebuttal (setEpoch env n (epoch + 1)), Rebutted)
      else
        case getLivePeer n accusedKey of
          None \<Rightarrow> (n, AccusedNotLive)
        | Some p \<Rightarrow>
            let peerNote = getNote n p in
            if (case peerNote of None \<Rightarrow> True | Some pn \<Rightarrow> epoch > n_epoch pn) then
              (case getLivePeer n accuserKey of
                 None \<Rightarrow> (n, AccuserNotLive)
               | Some accuserPeer \<Rightarrow>
                   let peerAccusation = getAccusation n p in
                   if (case peerAccusation of
                         None \<Rightarrow> False
                       | Some pa \<Rightarrow> \<not> isHigherRank env n (peerId (peers n accuserPeer)) (a_accuser pa))
                   then (n, LowerRank)
                   else
                     (case validateSignature env (sig_r sign1) (sig_s sign1)
                             (AccusationPayload epoch accuser accused)
                             (publicKey (peers n accuserPeer)) of
                        Inl err \<Rightarrow> (n, AccSignatureError)
                      | Inr valid \<Rightarrow>
                          if \<not> valid then (n, AccInvalidSignature)
                          else if \<not> isPrev env n accuserPeer p then (n, NotPredecessor)
                          else
                            let a1 = \<lparr>a_peerId = peerId (peers n p), a_epoch = epoch,
                                      a_accuser = peerId (peers n accuserPeer),
                                      a_signature = \<lparr>sig_r = sig_r sign1, sig_s = sig_s sign1\<rparr>\<rparr> in
                            (case setAccusation env n p a1 of
                               Inl err \<Rightarrow> (n, SetAccusationError)
                             | Inr n1 \<Rightarrow>
                                 if \<not> timerExist n1 accusedKey
                                 then (startTimer n1 (key (peers n1 p)) (recentNote (peers n1 p))
                                         accuserPeer (addr (peers n1 p)), Added)
                                 else (n1, Added))))
            else (n, Stale))"

text \<open>\<open>mergeAccusations\<close>: the handler on every accusation of the message, in order.\<close>

fun mergeAccusations :: "env \<Rightarrow> node \<Rightarrow> gossip_Accusation list \<Rightarrow> node" where
  "mergeAccusations env n [] = n"
| "mergeAccusations env n (acc # accusations) =
     mergeAccusations env (fst (evalAccusation env n acc)) accusations"

subsection \<open>\<open>evalNote\<close>\<close>

datatype note_outcome =
    NotInView | NoteSignatureError | NoteInvalidSignature | NoteStored | NoteNotNewer
  | NoteRebuttal | NoteNoRebuttal

definition evalNote :: "env \<Rightarrow> node \<Rightarrow> gossip_Note \<Rightarrow> node \<times> note_outcome" where
  "evalNote env n gossipNote =
     (let epoch = note_Epoch gossipNote; sign1 = note_Signature gossipNote;
          id1 = note_Id gossipNote; peerKey = id1 in
      case getViewPeer n peerKey of
        None \<Rightarrow> (n, NotInView)
      | Some p \<Rightarrow>
          (case validateSignature env (sig_r sign1) (sig_s sign1) (NotePayload epoch id1)
                  (publicKey (peers n p)) of
             Inl err \<Rightarrow> (n, NoteSignatureError)
           | Inr valid \<Rightarrow>
               if \<not> valid then (n, NoteInvalidSignature)
               else
                 (case getAccusation n p of
                    None \<Rightarrow>
                      let currNote = getNote n p in
                      if (case currNote of None \<Rightarrow> True | Some cn \<Rightarrow> n_epoch cn < epoch) then
                        let newNote = \<lparr>n_peerId = peerId (peers n p), n_epoch = epoch,
                                       n_signature = \<lparr>sig_r = sig_r sign1, sig_s = sig_s sign1\<rparr>\<rparr>;
                            n1 = setNote n p newNote in
                        if getLivePeer n1 peerKey = None then (addLivePeer n1 p, NoteStored)
                        else (n1, NoteStored)
                      else (n, NoteNotNewer)
                  | Some peerAccuse \<Rightarrow>
                      if a_epoch peerAccuse < epoch then
                        (addLivePeer (removeAccusation (deleteTimeout n peerKey) p) p, NoteRebuttal)
                      else (n, NoteNoRebuttal))))"

text \<open>\<open>mergeNotes\<close>: a note that names the local node is skipped.\<close>

fun mergeNotes :: "env \<Rightarrow> node \<Rightarrow> gossip_Note list \<Rightarrow> node" where
  "mergeNotes env n [] = n"
| "mergeNotes env n (newNote # notes) =
     (if peerId (self n) = note_Id newNote then mergeNotes env n notes
      else mergeNotes env (fst (evalNote env n newNote)) notes)"

subsection \<open>\<open>evalCertificate\<close> and \<open>mergeCertificates\<close>\<close>

text \<open>
  The first test, \<open>len(cert.Subject.Locality) == 0 || cert.Subject.Locality[0] == n.localAddr\<close>,
  reads the first locality only when there is one.
\<close>

definition evalCertificate :: "env \<Rightarrow> node \<Rightarrow> certificate \<Rightarrow> node" where
  "evalCertificate env n c =
     (if (case Locality c of [] \<Rightarrow> True | l # ls \<Rightarrow> l = localAddr n) then n
      else if length (SubjectKeyId c) = 0 \<or> peerId (self n) = SubjectKeyId c then n
      else
        let peerKey = SubjectKeyId c in
        case getViewPeer n peerKey of
          Some p \<Rightarrow> n
        | None \<Rightarrow>
            (case newPeer env c of
               Inl err \<Rightarrow> n
             | Inr p \<Rightarrow> (let (n1, r) = allocPeer n p in addViewPeer n1 r)))"

fun mergeCertificateList :: "env \<Rightarrow> node \<Rightarrow> bytes list \<Rightarrow> node" where
  "mergeCertificateList env n [] = n"
| "mergeCertificateList env n (b # certs) =
     (case parseCertificate env b of
        Inl err \<Rightarrow> mergeCertificateList env n certs
      | Inr c \<Rightarrow> mergeCertificateList env (evalCertificate env n c) certs)"

definition mergeCertificates :: "env \<Rightarrow> node \<Rightarrow> bytes list \<Rightarrow> certificate \<Rightarrow> node" where
  "mergeCertificates env n certs remoteCert =
     mergeCertificateList env (evalCertificate env n remoteCert) certs"

subsection \<open>\<open>Spread\<close>\<close>

text \<open>
  What \<open>Spread\<close> reads of its context: no peer information, peer information whose
  \<open>AuthInfo\<close> is not a \<open>credentials.TLSInfo\<close>, or the peer certificates of the TLS state.
\<close>

datatype ctx = NoPeer | NoTLSInfo | TLSInfo "certificate list"

record GossipMsg =
  Certificates :: "bytes list"
  Notes :: "gossip_Note list"
  Accusations :: "gossip_Accusation list"

text \<open>
  The reply \<open>gossip.Partners\<close>: the \<open>Raw\<close> bytes of each certificate of \<open>reply.Certificates\<close>.
  The loop over \<open>peerKeys\<close> appends the certificate of every key that is in the live set.
\<close>

fun liveCertificates :: "node \<Rightarrow> bytes list \<Rightarrow> bytes list" where
  "liveCertificates n [] = []"
| "liveCertificates n (k # peerKeys) =
     (case getLivePeer n k of
        Some p \<Rightarrow> Raw (cert (peers n p)) # liveCertificates n peerKeys
      | None \<Rightarrow> liveCertificates n peerKeys)"

text \<open>
  The block \<open>if !n.viewPeerExist(key) { ... }\<close>, which both branches of \<open>Spread\<close> hold: the
  new peer goes into the view and into the live set.
\<close>

definition addCaller :: "env \<Rightarrow> node \<Rightarrow> certificate \<Rightarrow> node_error + node" where
  "addCaller env n c =
     (if \<not> viewPeerExist n (SubjectKeyId c) then
        (case newPeer env c of
           Inl err \<Rightarrow> Inl errInvalidPeerInformation
         | Inr p \<Rightarrow> (let (n1, r) = allocPeer n p in Inr (addLivePeer (addViewPeer n1 r) r)))
      else Inr n)"

text \<open>
  \<open>Spread\<close> returns \<open>(nil, err)\<close> or \<open>(reply, nil)\<close>. In the branch of a caller that should
  not be a neighbour, the debug line \<open>cert.Subject.Locality[0]\<close> panics on a certificate
  without a locality.
\<close>

definition Spread :: "env \<Rightarrow> node \<Rightarrow> ctx \<Rightarrow> GossipMsg \<Rightarrow> (node_error + bytes list) \<times> node" where
  "Spread env n c args =
     (case c of
        NoPeer \<Rightarrow> (Inl errNoPeerInCtx, n)
      | NoTLSInfo \<Rightarrow> (Inl errNoTLSInfo, n)
      | TLSInfo peerCertificates \<Rightarrow>
          (case peerCertificates of
             [] \<Rightarrow> (Inl errNoCert, n)
           | cert1 # rest \<Rightarrow>
               if \<not> shouldBeNeighbours env n (SubjectKeyId cert1) then
                 (if Locality cert1 = [] then (Inl PanicIndexOutOfRange, n)
                  else
                    case addCaller env n cert1 of
                      Inl err \<Rightarrow> (Inl err, n)
                    | Inr n1 \<Rightarrow>
                        let peerKeys = findNeighbours env n1 (SubjectKeyId cert1) in
                        (Inr (liveCertificates n1 peerKeys), n1))
               else
                 (case addCaller env n cert1 of
                    Inl err \<Rightarrow> (Inl err, n)
                  | Inr n1 \<Rightarrow>
                      let n2 = mergeCertificates env n1 (Certificates args) cert1;
                          n3 = mergeNotes env n2 (Notes args);
                          n4 = mergeAccusations env n3 (Accusations args) in
                      (Inr [], n4))))"

subsection \<open>\<open>AppendGossipData\<close>\<close>

text \<open>
  An \<open>io.Reader\<close> as \<open>AppendGossipData\<close> uses it: one call \<open>data.Read(bytes)\<close>, which
  answers the number of bytes read and an error or nil. The reader sees the buffer
  and cannot change the caller's slice header, so after the call \<open>bytes\<close> is still the
  nil slice. The reader is a function of the buffer's length. \<open>io.Reader\<close> asks of
  every implementation that \<open>0 \<le> n \<le> len(p)\<close>; \<open>reader_contract\<close> is that condition for
  the one call made.
\<close>

type_synonym reader = "nat \<Rightarrow> int \<times> node_error option"

definition reader_contract :: "reader \<Rightarrow> nat \<Rightarrow> bool" where
  \<comment> \<open>the contract at a buffer of length \<open>k\<close>\<close>
  "reader_contract rd k = (0 \<le> fst (rd k) \<and> fst (rd k) \<le> int k)"

definition AppendGossipData :: "node \<Rightarrow> bytes \<Rightarrow> reader \<Rightarrow> node_error option \<times> node" where
  "AppendGossipData n id1 data =
     (let bytes1 = ([] :: bytes);
          (numRead, err) = data (length bytes1) in
      if err \<noteq> None then (err, n)
      else if numRead \<le> 0 then (Some errNoData, n)
      else (None, n\<lparr>gossipDataMap := (gossipDataMap n)(id1 \<mapsto> bytes1)\<rparr>))"

subsection \<open>Handler calls in sequence\<close>

text \<open>
  Any sequence of calls of \<open>evalNote\<close>, and the epochs of the notes that the sequence
  stores for the peer object at address \<open>p\<close> (the calls that end with \<open>p.setNote(newNote)\<close>).
\<close>

fun evalNotes :: "env \<Rightarrow> node \<Rightarrow> gossip_Note list \<Rightarrow> node" where
  "evalNotes env n [] = n"
| "evalNotes env n (g # gs) = evalNotes env (fst (evalNote env n g)) gs"

fun acceptedEpochs :: "env \<Rightarrow> node \<Rightarrow> nat \<Rightarrow> gossip_Note list \<Rightarrow> uint64 list" where
  "acceptedEpochs env n p [] = []"
| "acceptedEpochs env n p (g # gs) =
     (if getViewPeer n (note_Id g) = Some p \<and> snd (evalNote env n g) = NoteStored
      then [note_Epoch g] else [])
     @ acceptedEpochs env (fst (evalNote env n g)) p gs"

text \<open>
  The accuser of the accusation stored for the peer object at address \<open>p\<close>, if it has one,
  and, for a sequence of calls of \<open>evalAccusation\<close>, the accusers (as peer ids) of the
  accusations against \<open>p\<close> that were stored or were dropped by the rank comparison.
\<close>

definition storedAccuser :: "node \<Rightarrow> nat \<Rightarrow> bytes option" where
  "storedAccuser n p = map_option a_accuser (accusation (peers n p))"

fun competingAccusers :: "env \<Rightarrow> node \<Rightarrow> nat \<Rightarrow> gossip_Accusation list \<Rightarrow> bytes list" where
  "competingAccusers env n p [] = []"
| "competingAccusers env n p (a # accs) =
     (if getLivePeer n (acc_Accused a) = Some p
         \<and> (snd (evalAccusation env n a) = Added \<or> snd (evalAccusation env n a) = LowerRank)
      then (case getLivePeer n (acc_Accuser a) of
              Some q \<Rightarrow> [peerId (peers n q)]
            | None \<Rightarrow> [])
      else [])
     @ competingAccusers env (fst (evalAccusation env n a)) p accs"

text \<open>The epoch of the note stored for the peer object at address \<open>p\<close>, if it has one.\<close>

definition storedEpoch :: "node \<Rightarrow> nat \<Rightarrow> uint64 option" where
  "storedEpoch n p = map_option n_epoch (recentNote (peers n p))"

section \<open>The scenarios of the spec, as concrete states\<close>

text \<open>
  The spec's scenarios S1 to S5 name a local node and the peers A, B, C and D. The
  concrete collaborators below are small stand-ins: a signature is valid when its \<open>r\<close>
  is the signer's public key, the local note's signature carries the low byte of the
  signed epoch, every live peer passes as predecessor of every other, the rank of an
  accuser is the distance from its position (the first byte of its id) to position 3 on
  a ring of 256 positions, the only neighbour of the local node is A, and the computed
  neighbours of a caller are A, an id that is not in the view, and the caller itself.
\<close>

definition idL :: bytes where "idL = [1]"
definition idA :: bytes where "idA = [10]"
definition idB :: bytes where "idB = [3]"
definition idC :: bytes where "idC = [4]"
definition idD :: bytes where "idD = [2]"
definition idX :: bytes where "idX = [14]"

definition scn_cert :: "bytes \<Rightarrow> certificate" where
  "scn_cert i = \<lparr>SubjectKeyId = i, Locality = [''tcp'', ''udp''], Raw = 0 # i\<rparr>"

definition scn_peer :: "bytes \<Rightarrow> note_struct option \<Rightarrow> accusation option \<Rightarrow> peer" where
  "scn_peer i nt ac =
     \<lparr>key = i, peerId = i, addr = ''tcp'', publicKey = i, cert = scn_cert i,
      recentNote = nt, accusation = ac\<rparr>"

definition scn_dist :: "bytes \<Rightarrow> nat" where
  "scn_dist i = (case i of [] \<Rightarrow> 256 | w # _ \<Rightarrow> (259 - unat w) mod 256)"

definition scn_env :: env where
  "scn_env =
     \<lparr>validateSignature = (\<lambda>r s b pk. if pk = [] then Inl (OtherError ''no key'') else Inr (r = pk)),
      sign = (\<lambda>b. case b of
                NotePayload e i \<Rightarrow> \<lparr>sig_r = i, sig_s = [ucast e]\<rparr>
              | AccusationPayload e i j \<Rightarrow> \<lparr>sig_r = i, sig_s = [ucast e]\<rparr>),
      isHigherRank = (\<lambda>n i j. scn_dist i < scn_dist j),
      isPrev = (\<lambda>n q p. q \<noteq> p),
      shouldBeNeighbours = (\<lambda>n i. i = idA),
      findNeighbours = (\<lambda>n i. [idA, [99], i]),
      newPeer = (\<lambda>c. if Locality c = [] then Inl (OtherError ''no address'')
                      else Inr (scn_peer (SubjectKeyId c) None None)),
      parseCertificate = (\<lambda>b. case b of [] \<Rightarrow> Inl (OtherError ''asn1'') | w # i \<Rightarrow> Inr (scn_cert i)),
      setAccusationErr = (\<lambda>p a. None)\<rparr>"

definition scn_note :: "bytes \<Rightarrow> uint64 \<Rightarrow> note_struct" where
  "scn_note i e = \<lparr>n_peerId = i, n_epoch = e, n_signature = \<lparr>sig_r = i, sig_s = [ucast e]\<rparr>\<rparr>"

text \<open>
  The node with local epoch \<open>le\<close> whose view and live set hold A, B, C and D at the
  addresses 0 to 3; B has the note \<open>bNote\<close> and the accusation \<open>bAcc\<close>, and a timeout
  entry when it is accused.
\<close>

definition scn_node :: "uint64 \<Rightarrow> note_struct option \<Rightarrow> accusation option \<Rightarrow> node" where
  "scn_node le bNote bAcc =
     \<lparr>self = scn_peer idL (Some (scn_note idL le)) None,
      localAddr = ''local'',
      peers = (\<lambda>r. if r = 0 then scn_peer idA (Some (scn_note idA 1)) None
                   else if r = 1 then scn_peer idB bNote bAcc
                   else if r = 2 then scn_peer idC (Some (scn_note idC 1)) None
                   else scn_peer idD (Some (scn_note idD 1)) None),
      nextRef = 4,
      viewMap = (\<lambda>k. if k = idA then Some 0 else if k = idB then Some 1
                     else if k = idC then Some 2 else if k = idD then Some 3 else None),
      liveMap = (\<lambda>k. if k = idA then Some 0 else if k = idB then Some 1
                     else if k = idC then Some 2 else if k = idD then Some 3 else None),
      timeoutMap = (\<lambda>k. if k = idB \<and> bAcc \<noteq> None
                        then Some \<lparr>observer = 2, lastNote = bNote, taddr = ''tcp''\<rparr> else None),
      gossipDataMap = Map.empty,
      rebuttals = 0\<rparr>"

definition scn_accusation :: "bytes \<Rightarrow> bytes \<Rightarrow> uint64 \<Rightarrow> gossip_Accusation" where
  "scn_accusation accused accuser e =
     \<lparr>acc_Epoch = e, acc_Accuser = accuser, acc_Accused = accused,
      acc_Signature = \<lparr>sig_r = accuser, sig_s = []\<rparr>\<rparr>"

definition scn_gossip_note :: "bytes \<Rightarrow> uint64 \<Rightarrow> gossip_Note" where
  "scn_gossip_note i e =
     \<lparr>note_Epoch = e, note_Id = i, note_Signature = \<lparr>sig_r = i, sig_s = []\<rparr>\<rparr>"

definition scn_stored_accusation :: "bytes \<Rightarrow> bytes \<Rightarrow> uint64 \<Rightarrow> accusation" where
  "scn_stored_accusation accused accuser e =
     \<lparr>a_peerId = accused, a_epoch = e, a_accuser = accuser,
      a_signature = \<lparr>sig_r = accuser, sig_s = []\<rparr>\<rparr>"

section \<open>Properties of the sorted ring slice\<close>

subsection \<open>Arithmetic and list facts for the two loops\<close>

lemma quo_2_nonneg: "0 \<le> a \<Longrightarrow> quo a 2 = a div 2"
  unfolding quo_def by (auto simp: sgn_if abs_if)

lemma insert_pos_iff:
  "insert_pos sl x k \<longleftrightarrow>
     (k \<le> length sl \<and> (\<forall>i<k. sl ! i < x) \<and> (\<forall>i. k \<le> i \<and> i < length sl \<longrightarrow> x \<le> sl ! i))"
proof -
  have a: "list_all (\<lambda>y. y < x) (take k sl) \<longleftrightarrow> (\<forall>i<k. sl ! i < x)" if "k \<le> length sl"
    using that by (auto simp: list_all_length)
  have b: "list_all (\<lambda>y. x \<le> y) (drop k sl) \<longleftrightarrow> (\<forall>i. k \<le> i \<and> i < length sl \<longrightarrow> x \<le> sl ! i)"
    if "k \<le> length sl"
  proof
    assume h: "list_all (\<lambda>y. x \<le> y) (drop k sl)"
    show "\<forall>i. k \<le> i \<and> i < length sl \<longrightarrow> x \<le> sl ! i"
    proof (intro allI impI)
      fix i assume i: "k \<le> i \<and> i < length sl"
      then have "i - k < length (drop k sl)" by auto
      then have "x \<le> drop k sl ! (i - k)" using h by (simp add: list_all_length)
      then show "x \<le> sl ! i" using i that by simp
    qed
  next
    assume "\<forall>i. k \<le> i \<and> i < length sl \<longrightarrow> x \<le> sl ! i"
    then show "list_all (\<lambda>y. x \<le> y) (drop k sl)" using that by (simp add: list_all_length)
  qed
  show ?thesis unfolding insert_pos_def using a b by blast
qed

lemma shift_assign_here:
  "c < length sl \<Longrightarrow> (take (c + 1) sl @ drop c sl)[c := x] = take c sl @ x # drop c sl"
  by (simp add: list_update_append take_Suc_conv_app_nth)

lemma shift_assign_next:
  "c < length sl \<Longrightarrow> (take (c + 1) sl @ drop c sl)[Suc c := x] = take (Suc c) sl @ x # drop (Suc c) sl"
  by (simp add: list_update_append Cons_nth_drop_Suc[symmetric])

lemma shift_index:
  "c < length sl \<Longrightarrow> (take (c + 1) sl @ drop c sl) ! c = sl ! c"
  by (simp add: nth_append)

subsection \<open>\<open>insert\<close>: never a panic, and the new id lands at its place\<close>

text \<open>
  From any state with \<open>0 \<le> currIdx < len(slice)\<close> and \<open>maxIdx < len(slice)\<close> the loop of
  \<open>insert\<close> ends without a panic, whatever the order of the entries, and puts the new id
  at the index it reports.
\<close>

lemma insert_loop_total:
  "0 \<le> c \<Longrightarrow> c < int (length sl) \<Longrightarrow> m < int (length sl) \<Longrightarrow>
   \<exists>k\<le>length sl. insert_loop sl x c m = Inr (take k sl @ x # drop k sl, int k)"
proof (induction sl x c m rule: insert_loop.induct)
  case (1 sl newId currIdx maxIdx)
  show ?case
  proof (cases "currIdx \<ge> maxIdx")
    case True
    define c where "c = nat currIdx"
    have c: "currIdx = int c" "c < length sl" using 1(3,4) by (auto simp: c_def)
    show ?thesis
    proof (cases "sl ! c < newId")
      case lt: True
      have "insert_loop sl newId currIdx maxIdx = Inr (take (Suc c) sl @ newId # drop (Suc c) sl, int (Suc c))"
        using True c lt
        by (subst insert_loop.simps)
           (simp add: append_copy_def index_def assign_def cmpId_def shift_index nat_add_distrib
              shift_assign_next[simplified] nth_append)
      then show ?thesis using c by (intro exI[of _ "Suc c"]) simp
    next
      case ge: False
      have "insert_loop sl newId currIdx maxIdx = Inr (take c sl @ newId # drop c sl, int c)"
        using True c ge
        by (subst insert_loop.simps)
           (simp add: append_copy_def index_def assign_def cmpId_def shift_index
              shift_assign_here[simplified] nth_append)
      then show ?thesis using c by (intro exI[of _ c]) simp
    qed
  next
    case False
    define mid where "mid = quo (currIdx + maxIdx) 2"
    have mid: "currIdx \<le> mid" "mid < maxIdx"
      using False 1(3) by (auto simp: mid_def quo_2_nonneg)
    have ix: "index sl mid = Inr (sl ! nat mid)"
      using mid 1(3,5) by (simp add: index_def)
    show ?thesis
    proof (cases "cmpId (sl ! nat mid) newId = - 1")
      case True
      have "insert_loop sl newId currIdx maxIdx = insert_loop sl newId (mid + 1) maxIdx"
        using False True ix by (subst insert_loop.simps) (simp add: mid_def[symmetric] Let_def)
      moreover have "\<exists>k\<le>length sl. insert_loop sl newId (mid + 1) maxIdx = Inr (take k sl @ newId # drop k sl, int k)"
        using 1(1)[OF False mid_def ix True] mid 1(3,5) by simp
      ultimately show ?thesis by simp
    next
      case F2: False
      have "insert_loop sl newId currIdx maxIdx = insert_loop sl newId currIdx (mid - 1)"
        using False F2 ix by (subst insert_loop.simps) (simp add: mid_def[symmetric] Let_def)
      moreover have "\<exists>k\<le>length sl. insert_loop sl newId currIdx (mid - 1) = Inr (take k sl @ newId # drop k sl, int k)"
        using 1(2)[OF False mid_def ix F2] mid 1(3,4,5) by simp
      ultimately show ?thesis by simp
    qed
  qed
qed

text \<open>So \<open>insert\<close> returns on every slice, sorted or not.\<close>

lemma insert_ring_total:
  "\<exists>k\<le>length sl. insert_ring sl x = Inr (take k sl @ x # drop k sl, int k)"
proof (cases "sl = []")
  case True
  then show ?thesis by (simp add: insert_ring_def)
next
  case False
  then have "insert_ring sl x = insert_loop sl x 0 (int (length sl) - 1)"
    by (simp add: insert_ring_def Let_def)
  moreover have "\<exists>k\<le>length sl. insert_loop sl x 0 (int (length sl) - 1)
      = Inr (take k sl @ x # drop k sl, int k)"
    using False by (intro insert_loop_total) auto
  ultimately show ?thesis by simp
qed

text \<open>
  On a sorted slice the loop keeps the entries below \<open>currIdx\<close> under the new id and the
  entries above \<open>maxIdx\<close> not under it, so the index it ends on is the new id's place.
\<close>

lemma insert_loop_sorted:
  "sorted sl \<Longrightarrow> 0 \<le> c \<Longrightarrow> c < int (length sl) \<Longrightarrow> m < int (length sl) \<Longrightarrow> c \<le> m + 1 \<Longrightarrow>
   \<forall>i<nat c. sl ! i < x \<Longrightarrow> \<forall>i. nat (m + 1) \<le> i \<and> i < length sl \<longrightarrow> x \<le> sl ! i \<Longrightarrow>
   \<exists>k. insert_pos sl x k \<and> insert_loop sl x c m = Inr (take k sl @ x # drop k sl, int k)"
proof (induction sl x c m rule: insert_loop.induct)
  case (1 sl newId currIdx maxIdx)
  note srt = \<open>sorted sl\<close>
  note lo = \<open>\<forall>i<nat currIdx. sl ! i < newId\<close>
  note hi = \<open>\<forall>i. nat (maxIdx + 1) \<le> i \<and> i < length sl \<longrightarrow> newId \<le> sl ! i\<close>
  show ?case
  proof (cases "currIdx \<ge> maxIdx")
    case True
    define c where "c = nat currIdx"
    have c: "currIdx = int c" "c < length sl" using 1(4,5) by (auto simp: c_def)
    have m: "nat (maxIdx + 1) \<le> Suc c" using True c by simp
    show ?thesis
    proof (cases "sl ! c < newId")
      case lt: True
      have "insert_loop sl newId currIdx maxIdx = Inr (take (Suc c) sl @ newId # drop (Suc c) sl, int (Suc c))"
        using True c lt
        by (subst insert_loop.simps)
           (simp add: append_copy_def index_def assign_def cmpId_def shift_index nat_add_distrib
              shift_assign_next[simplified] nth_append)
      moreover have "insert_pos sl newId (Suc c)"
        unfolding insert_pos_iff using c lt lo hi m by (auto simp: less_Suc_eq)
      ultimately show ?thesis by blast
    next
      case ge: False
      have "insert_loop sl newId currIdx maxIdx = Inr (take c sl @ newId # drop c sl, int c)"
        using True c ge
        by (subst insert_loop.simps)
           (simp add: append_copy_def index_def assign_def cmpId_def shift_index
              shift_assign_here[simplified] nth_append)
      moreover have "insert_pos sl newId c"
        unfolding insert_pos_iff
      proof (intro conjI allI impI)
        show "c \<le> length sl" using c by simp
        show "\<And>i. i < c \<Longrightarrow> sl ! i < newId" using lo c by simp
        fix i assume i: "c \<le> i \<and> i < length sl"
        show "newId \<le> sl ! i"
        proof (cases "i = c")
          case True then show ?thesis using ge by simp
        next
          case False then show ?thesis using hi i m by auto
        qed
      qed
      ultimately show ?thesis by blast
    qed
  next
    case False
    define mid where "mid = quo (currIdx + maxIdx) 2"
    have mid: "currIdx \<le> mid" "mid < maxIdx"
      using False 1(4) by (auto simp: mid_def quo_2_nonneg)
    have midn: "nat mid < length sl" "0 \<le> mid" using mid 1(4,6) by auto
    have ix: "index sl mid = Inr (sl ! nat mid)"
      using mid 1(4,6) by (simp add: index_def)
    show ?thesis
    proof (cases "cmpId (sl ! nat mid) newId = - 1")
      case True
      have lt: "sl ! nat mid < newId" using True by (simp add: cmpId_def split: if_splits)
      have lo': "\<forall>i<nat (mid + 1). sl ! i < newId"
      proof (intro allI impI)
        fix i assume "i < nat (mid + 1)"
        then have "i \<le> nat mid" using midn by linarith
        then have "sl ! i \<le> sl ! nat mid" using srt midn by (simp add: sorted_nth_mono)
        then show "sl ! i < newId" using lt by simp
      qed
      have "insert_loop sl newId currIdx maxIdx = insert_loop sl newId (mid + 1) maxIdx"
        using False True ix by (subst insert_loop.simps) (simp add: mid_def[symmetric] Let_def)
      moreover have "\<exists>k. insert_pos sl newId k \<and> insert_loop sl newId (mid + 1) maxIdx = Inr (take k sl @ newId # drop k sl, int k)"
        using 1(1)[OF False mid_def ix True srt _ _ _ _ lo' hi] mid 1(4,6) by simp
      ultimately show ?thesis by simp
    next
      case F2: False
      have ge: "newId \<le> sl ! nat mid" using F2 by (simp add: cmpId_def split: if_splits)
      have hi': "\<forall>i. nat (mid - 1 + 1) \<le> i \<and> i < length sl \<longrightarrow> newId \<le> sl ! i"
      proof (intro allI impI)
        fix i assume i: "nat (mid - 1 + 1) \<le> i \<and> i < length sl"
        then have "sl ! nat mid \<le> sl ! i" using srt by (simp add: sorted_nth_mono)
        then show "newId \<le> sl ! i" using ge by simp
      qed
      have "insert_loop sl newId currIdx maxIdx = insert_loop sl newId currIdx (mid - 1)"
        using False F2 ix by (subst insert_loop.simps) (simp add: mid_def[symmetric] Let_def)
      moreover have "\<exists>k. insert_pos sl newId k \<and> insert_loop sl newId currIdx (mid - 1) = Inr (take k sl @ newId # drop k sl, int k)"
        using 1(2)[OF False mid_def ix F2 srt _ _ _ _ lo hi'] mid 1(4,5,6) by simp
      ultimately show ?thesis by simp
    qed
  qed
qed

lemma insert_pos_sorted:
  assumes "sorted sl" "insert_pos sl x k"
  shows "sorted (take k sl @ x # drop k sl)"
proof -
  have a: "\<forall>y\<in>set (take k sl). y < x"
    using assms(2) by (auto simp: insert_pos_iff in_set_conv_nth)
  have b: "\<forall>y\<in>set (drop k sl). x \<le> y"
    using assms(2) by (auto simp: insert_pos_iff in_set_conv_nth)
  have "sorted (take k sl)" "sorted (drop k sl)"
    using assms(1) by (simp_all add: sorted_wrt_take sorted_wrt_drop)
  then show ?thesis using a b by (fastforce simp: sorted_append)
qed

lemma insert_ring_sorted:
  assumes "sorted sl"
  shows "\<exists>k. insert_pos sl x k \<and> insert_ring sl x = Inr (take k sl @ x # drop k sl, int k)"
proof (cases "sl = []")
  case True
  then show ?thesis by (intro exI[of _ 0]) (simp add: insert_ring_def insert_pos_iff)
next
  case False
  then have "insert_ring sl x = insert_loop sl x 0 (int (length sl) - 1)"
    by (simp add: insert_ring_def Let_def)
  moreover have "\<exists>k. insert_pos sl x k \<and>
      insert_loop sl x 0 (int (length sl) - 1) = Inr (take k sl @ x # drop k sl, int k)"
    using False by (intro insert_loop_sorted[OF assms]) auto
  ultimately show ?thesis by simp
qed

subsection \<open>\<open>search\<close>: bounds and result\<close>

lemma search_loop_in_bounds:
  "0 \<le> c \<Longrightarrow> c < int (length sl) \<Longrightarrow> m < int (length sl) \<Longrightarrow>
   search_loop sl x c m \<noteq> Inl IndexOutOfRange"
proof (induction sl x c m rule: search_loop.induct)
  case (1 sl searchId currIdx maxIdx)
  show ?case
  proof (cases "currIdx \<ge> maxIdx")
    case True
    then show ?thesis using 1(3,4)
      by (subst search_loop.simps) (simp add: index_def)
  next
    case False
    define mid where "mid = quo (currIdx + maxIdx) 2"
    have mid: "currIdx \<le> mid" "mid < maxIdx"
      using False 1(3) by (auto simp: mid_def quo_2_nonneg)
    have ix: "index sl mid = Inr (sl ! nat mid)"
      using mid 1(3,5) by (simp add: index_def)
    define cmp where "cmp = cmpId (sl ! nat mid) searchId"
    consider "cmp = - 1" | "cmp \<noteq> - 1" "cmp = 1" | "cmp \<noteq> - 1" "cmp \<noteq> 1" by blast
    then show ?thesis
    proof cases
      case 1: 1
      have "search_loop sl searchId currIdx maxIdx = search_loop sl searchId (mid + 1) maxIdx"
        using False 1 ix
        by (subst search_loop.simps) (simp add: mid_def[symmetric] cmp_def[symmetric] Let_def)
      moreover have "search_loop sl searchId (mid + 1) maxIdx \<noteq> Inl IndexOutOfRange"
        using "1.IH"(1)[OF False mid_def ix cmp_def 1] mid "1.prems" by simp
      ultimately show ?thesis by simp
    next
      case 2: 2
      have "search_loop sl searchId currIdx maxIdx = search_loop sl searchId currIdx (mid - 1)"
        using False 2 ix
        by (subst search_loop.simps) (simp add: mid_def[symmetric] cmp_def[symmetric] Let_def)
      moreover have "search_loop sl searchId currIdx (mid - 1) \<noteq> Inl IndexOutOfRange"
        using "1.IH"(2)[OF False mid_def ix cmp_def 2] mid "1.prems" by simp
      ultimately show ?thesis by simp
    next
      case 3
      then show ?thesis using False ix
        by (subst search_loop.simps) (simp add: mid_def[symmetric] cmp_def[symmetric] Let_def)
    qed
  qed
qed

lemma search_loop_sorted:
  "sorted sl \<Longrightarrow> 0 \<le> c \<Longrightarrow> c < int (length sl) \<Longrightarrow> m < int (length sl) \<Longrightarrow> c \<le> m + 1 \<Longrightarrow>
   \<forall>i<nat c. sl ! i < x \<Longrightarrow> \<forall>i. nat (m + 1) \<le> i \<and> i < length sl \<longrightarrow> x < sl ! i \<Longrightarrow>
   (if x \<in> set sl then \<exists>j<length sl. search_loop sl x c m = Inr (int j) \<and> sl ! j = x
    else search_loop sl x c m = Inl errIdNotFound)"
proof (induction sl x c m rule: search_loop.induct)
  case (1 sl searchId currIdx maxIdx)
  note srt = \<open>sorted sl\<close>
  note lo = \<open>\<forall>i<nat currIdx. sl ! i < searchId\<close>
  note hi = \<open>\<forall>i. nat (maxIdx + 1) \<le> i \<and> i < length sl \<longrightarrow> searchId < sl ! i\<close>
  show ?case
  proof (cases "currIdx \<ge> maxIdx")
    case True
    define c where "c = nat currIdx"
    have c: "currIdx = int c" "c < length sl" using "1.prems" by (auto simp: c_def)
    have m: "nat (maxIdx + 1) \<le> Suc c" using True c by simp
    have other: "sl ! i \<noteq> searchId" if "i < length sl" "i \<noteq> c" for i
    proof (cases "i < c")
      case True then show ?thesis using lo c by auto
    next
      case False
      then have "nat (maxIdx + 1) \<le> i" using that m by simp
      then show ?thesis using hi that by auto
    qed
    show ?thesis
    proof (cases "sl ! c = searchId")
      case eq: True
      have "search_loop sl searchId currIdx maxIdx = Inr (int c)"
        using True c eq by (subst search_loop.simps) (simp add: index_def cmpId_def)
      moreover have "searchId \<in> set sl" using eq c by (auto simp: in_set_conv_nth)
      ultimately show ?thesis using eq c by auto
    next
      case ne: False
      have "search_loop sl searchId currIdx maxIdx = Inl errIdNotFound"
        using True c ne by (subst search_loop.simps) (simp add: index_def cmpId_def)
      moreover have "searchId \<notin> set sl" using ne other by (auto simp: in_set_conv_nth)
      ultimately show ?thesis by simp
    qed
  next
    case False
    define mid where "mid = quo (currIdx + maxIdx) 2"
    have mid: "currIdx \<le> mid" "mid < maxIdx"
      using False "1.prems" by (auto simp: mid_def quo_2_nonneg)
    have midn: "nat mid < length sl" "0 \<le> mid" using mid "1.prems" by auto
    have ix: "index sl mid = Inr (sl ! nat mid)"
      using mid "1.prems" by (simp add: index_def)
    define cmp where "cmp = cmpId (sl ! nat mid) searchId"
    consider "cmp = - 1" | "cmp \<noteq> - 1" "cmp = 1" | "cmp \<noteq> - 1" "cmp \<noteq> 1" by blast
    then show ?thesis
    proof cases
      case 1: 1
      have lt: "sl ! nat mid < searchId" using 1 by (simp add: cmp_def cmpId_def split: if_splits)
      have lo': "\<forall>i<nat (mid + 1). sl ! i < searchId"
      proof (intro allI impI)
        fix i assume "i < nat (mid + 1)"
        then have "i \<le> nat mid" using midn by linarith
        then have "sl ! i \<le> sl ! nat mid" using srt midn by (simp add: sorted_nth_mono)
        then show "sl ! i < searchId" using lt by simp
      qed
      have "search_loop sl searchId currIdx maxIdx = search_loop sl searchId (mid + 1) maxIdx"
        using False 1 ix
        by (subst search_loop.simps) (simp add: mid_def[symmetric] cmp_def[symmetric] Let_def)
      moreover have "(if searchId \<in> set sl
          then \<exists>j<length sl. search_loop sl searchId (mid + 1) maxIdx = Inr (int j) \<and> sl ! j = searchId
          else search_loop sl searchId (mid + 1) maxIdx = Inl errIdNotFound)"
        using "1.IH"(1)[OF False mid_def ix cmp_def 1 srt _ _ _ _ lo' hi] mid "1.prems" by simp
      ultimately show ?thesis by simp
    next
      case 2: 2
      have gt: "searchId < sl ! nat mid" using 2 by (simp add: cmp_def cmpId_def split: if_splits)
      have hi': "\<forall>i. nat (mid - 1 + 1) \<le> i \<and> i < length sl \<longrightarrow> searchId < sl ! i"
      proof (intro allI impI)
        fix i assume i: "nat (mid - 1 + 1) \<le> i \<and> i < length sl"
        then have "sl ! nat mid \<le> sl ! i" using srt by (simp add: sorted_nth_mono)
        then show "searchId < sl ! i" using gt by simp
      qed
      have "search_loop sl searchId currIdx maxIdx = search_loop sl searchId currIdx (mid - 1)"
        using False 2 ix
        by (subst search_loop.simps) (simp add: mid_def[symmetric] cmp_def[symmetric] Let_def)
      moreover have "(if searchId \<in> set sl
          then \<exists>j<length sl. search_loop sl searchId currIdx (mid - 1) = Inr (int j) \<and> sl ! j = searchId
          else search_loop sl searchId currIdx (mid - 1) = Inl errIdNotFound)"
        using "1.IH"(2)[OF False mid_def ix cmp_def 2 srt _ _ _ _ lo hi'] mid "1.prems" by simp
      ultimately show ?thesis by simp
    next
      case 3
      then have eq: "sl ! nat mid = searchId" by (simp add: cmp_def cmpId_def split: if_splits)
      have "search_loop sl searchId currIdx maxIdx = Inr mid"
        using False 3 ix
        by (subst search_loop.simps) (simp add: mid_def[symmetric] cmp_def[symmetric] Let_def)
      moreover have "searchId \<in> set sl" using eq midn by (auto simp: in_set_conv_nth)
      ultimately show ?thesis using eq midn by (auto intro!: exI[of _ "nat mid"])
    qed
  qed
qed

lemma search_sorted:
  assumes "sorted sl" "sl \<noteq> []"
  shows "(if x \<in> set sl then \<exists>j<length sl. search sl x = Inr (int j) \<and> sl ! j = x
    else search sl x = Inl errIdNotFound)"
proof -
  have "search sl x = search_loop sl x 0 (int (length sl) - 1)"
    by (simp add: search_def Let_def)
  moreover have "(if x \<in> set sl then \<exists>j<length sl. search_loop sl x 0 (int (length sl) - 1) = Inr (int j) \<and> sl ! j = x
    else search_loop sl x 0 (int (length sl) - 1) = Inl errIdNotFound)"
    using assms(2) by (intro search_loop_sorted[OF assms(1)]) auto
  ultimately show ?thesis by simp
qed

lemma search_empty: "search [] x = Inl IndexOutOfRange"
  by (simp add: search_def index_def search_loop.simps)

lemma search_nonempty: "sl \<noteq> [] \<Longrightarrow> search sl x \<noteq> Inl IndexOutOfRange"
  unfolding search_def Let_def by (intro search_loop_in_bounds) auto

subsection \<open>Sequences of insertions\<close>

lemma mset_insert_at: "k \<le> length sl \<Longrightarrow> mset (take k sl @ x # drop k sl) = add_mset x (mset sl)"
proof -
  have "mset sl = mset (take k sl) + mset (drop k sl)"
    by (metis append_take_drop_id mset_append)
  then show ?thesis by simp
qed

lemma insert_all_sorted:
  "sorted sl \<Longrightarrow> \<exists>sl'. insert_all sl xs = Inr sl' \<and> sorted sl' \<and> mset sl' = mset sl + mset xs"
proof (induction xs arbitrary: sl)
  case Nil
  then show ?case by simp
next
  case (Cons x xs)
  obtain k where k: "insert_pos sl x k" "insert_ring sl x = Inr (take k sl @ x # drop k sl, int k)"
    using insert_ring_sorted[OF Cons.prems] by blast
  let ?sl1 = "take k sl @ x # drop k sl"
  have s1: "sorted ?sl1" using insert_pos_sorted[OF Cons.prems k(1)] .
  have m1: "mset ?sl1 = add_mset x (mset sl)"
    using k(1) by (intro mset_insert_at) (simp add: insert_pos_iff)
  obtain sl' where "insert_all ?sl1 xs = Inr sl'" "sorted sl'" "mset sl' = mset ?sl1 + mset xs"
    using Cons.IH[OF s1] by blast
  then show ?case using k(2) m1 by simp
qed

text \<open>
  Claim C7, as amended. \<open>insert\<close> has no check for an id that is already in the slice.
  For every sorted slice and every sequence of insert operations, every call returns
  (no panic), the resulting slice is sorted in non-decreasing position order and holds
  exactly the old entries and the inserted ids, each as often as it was there or was
  inserted. When the slice is strictly increasing and the inserted ids are pairwise
  distinct and not in the slice, the result is strictly increasing, so it holds each id
  at most once.
\<close>

theorem insert_all_ring:
  assumes "sorted sl"
  shows "\<exists>sl'. insert_all sl xs = Inr sl' \<and> sorted sl' \<and> mset sl' = mset sl + mset xs \<and>
     (sorted_wrt (<) sl \<and> distinct xs \<and> set xs \<inter> set sl = {} \<longrightarrow> sorted_wrt (<) sl')"
proof -
  obtain sl' where r: "insert_all sl xs = Inr sl'" "sorted sl'" "mset sl' = mset sl + mset xs"
    using insert_all_sorted[OF assms] by blast
  have "sorted_wrt (<) sl'" if h: "sorted_wrt (<) sl \<and> distinct xs \<and> set xs \<inter> set sl = {}"
  proof -
    have "distinct sl" using h by (simp add: strict_sorted_iff)
    then have "distinct (sl @ xs)" using h by auto
    moreover have "mset sl' = mset (sl @ xs)" using r(3) by simp
    ultimately have "distinct sl'" by (metis mset_eq_imp_distinct_iff)
    then show ?thesis using r(2) by (simp add: strict_sorted_iff)
  qed
  then show ?thesis using r by blast
qed

theorem insert_all_ring_witness:
  "sorted [1, 3 :: nat] \<and> (\<exists>sl'. insert_all [1, 3] [2, 5] = Inr sl' \<and> sorted_wrt (<) sl')"
proof -
  have h: "sorted [1, 3 :: nat]" by simp
  have pre: "sorted_wrt (<) [1, 3 :: nat] \<and> distinct [2, 5 :: nat] \<and> set [2, 5] \<inter> set [1, 3 :: nat] = {}"
    by simp
  show ?thesis using h pre insert_all_ring[OF h, of "[2, 5]"] by blast
qed

text \<open>
  Claim C7 as stated fails: inserting the id \<open>5\<close> into the strictly increasing slice
  \<open>[5]\<close> gives \<open>[5, 5]\<close>, which holds the id twice and is not strictly increasing.
\<close>

theorem insert_twice_counterexample:
  "sorted_wrt (<) [5 :: nat] \<and> insert_all [5] [5] = Inr [5, 5] \<and> \<not> distinct [5, 5 :: nat]
   \<and> \<not> sorted_wrt (<) [5, 5 :: nat]"
  by code_simp

subsection \<open>Insert then search, remove then search\<close>

lemma sorted_wrt_remove_mid:
  "sorted_wrt (<) (a @ x # b) \<Longrightarrow> sorted_wrt (<) (a @ b) \<and> x \<notin> set (a @ b)"
  for x :: nat
  by (auto simp: sorted_wrt_append)

text \<open>
  The first half of claim C8 holds: on a strictly increasing slice, inserting an id that
  is not in it and then searching for the id returns the index \<open>insert\<close> reported.
\<close>

lemma insert_then_search:
  assumes "sorted_wrt (<) sl" "x \<notin> set sl"
  shows "\<exists>sl' k. insert_ring sl x = Inr (sl', k) \<and> search sl' x = Inr k"
proof -
  have srt: "sorted sl" and dst: "distinct sl" using assms(1) by (simp_all add: strict_sorted_iff)
  obtain k where k: "insert_pos sl x k" "insert_ring sl x = Inr (take k sl @ x # drop k sl, int k)"
    using insert_ring_sorted[OF srt] by blast
  let ?sl1 = "take k sl @ x # drop k sl"
  have kl: "k \<le> length sl" using k(1) by (simp add: insert_pos_iff)
  have s1: "sorted ?sl1" using insert_pos_sorted[OF srt k(1)] .
  have "mset ?sl1 = mset (x # sl)" using mset_insert_at[OF kl] by simp
  moreover have "distinct (x # sl)" using dst assms(2) by simp
  ultimately have d1: "distinct ?sl1" by (metis mset_eq_imp_distinct_iff)
  have at: "?sl1 ! k = x" "k < length ?sl1" using kl by (simp_all add: nth_append)
  have "x \<in> set ?sl1" by simp
  then obtain j where j: "j < length ?sl1" "search ?sl1 x = Inr (int j)" "?sl1 ! j = x"
    using search_sorted[OF s1, of x] by auto
  have "j = k" using j(3) at(1) nth_eq_iff_index_eq[OF d1 j(1) at(2)] by simp
  then show ?thesis using k(2) j(2) by simp
qed

text \<open>
  The second half holds as long as an entry is left after the removal.
\<close>

lemma remove_then_search:
  assumes "sorted_wrt (<) sl" "x \<in> set sl" "2 \<le> length sl"
  shows "\<exists>sl'. remove_ring sl x = Inr sl' \<and> search sl' x = Inl errIdNotFound"
proof -
  have srt: "sorted sl" using assms(1) by (simp add: strict_sorted_iff)
  have ne: "sl \<noteq> []" using assms(3) by auto
  obtain j where j: "j < length sl" "search sl x = Inr (int j)" "sl ! j = x"
    using search_sorted[OF srt ne, of x] assms(2) by auto
  let ?sl1 = "take j sl @ drop (Suc j) sl"
  have "sl = take j sl @ x # drop (Suc j) sl" using j(1,3) id_take_nth_drop by blast
  then have "sorted_wrt (<) (take j sl @ x # drop (Suc j) sl)" using assms(1) by simp
  then have p: "sorted_wrt (<) ?sl1" "x \<notin> set ?sl1" using sorted_wrt_remove_mid by blast+
  have "length ?sl1 = length sl - 1" using j(1) by simp
  then have "0 < length ?sl1" using assms(3) by linarith
  then have ne1: "?sl1 \<noteq> []" by (simp del: length_append length_take length_drop)
  have "sorted ?sl1" using p(1) by (simp add: strict_sorted_iff)
  then have "search ?sl1 x = Inl errIdNotFound"
    using search_sorted[OF _ ne1, of x] p(2) by simp
  moreover have "remove_ring sl x = Inr ?sl1" using j(2) by (simp add: remove_ring_def)
  ultimately show ?thesis by simp
qed

text \<open>
  Claim C8, the failing input. Removing the id \<open>5\<close> from the slice \<open>[5]\<close> leaves the empty
  slice, and \<open>search\<close> for \<open>5\<close> in it reads \<open>slice[0]\<close>: the call panics with an index
  out of range where the claim promises \<open>errIdNotFound\<close>. \<open>insert\<close> guards the empty
  slice (\<open>maxIdx == -1\<close>); \<open>search\<close> does not.
\<close>

theorem remove_last_then_search_panics:
  "remove_ring [5] 5 = Inr [] \<and> search [] 5 = Inl IndexOutOfRange"
  by code_simp

text \<open>
  Claim C9. \<open>search\<close> reads \<open>slice[currIdx]\<close> as soon as \<open>currIdx \<ge> maxIdx\<close>. Every index
  expression of the model is checked, and \<open>IndexOutOfRange\<close> is the result exactly when
  one of them is out of range: that happens for the empty slice, at the first access
  \<open>slice[0]\<close>, and for no other slice, whatever its order and whatever the id.
\<close>

theorem search_in_bounds_iff_nonempty:
  "search sl x = Inl IndexOutOfRange \<longleftrightarrow> sl = []"
  using search_empty search_nonempty by blast

theorem search_in_bounds_witness:
  "search [2, 4, 6] 5 \<noteq> Inl IndexOutOfRange \<and> search [] 5 = Inl IndexOutOfRange"
  using search_in_bounds_iff_nonempty[of "[2, 4, 6]" 5] search_in_bounds_iff_nonempty[of "[]" 5] by simp

section \<open>Properties of the gossip handlers\<close>

subsection \<open>Unfolding sets and a fact on \<open>uint64\<close>\<close>

lemmas scn_defs = scn_env_def scn_node_def scn_peer_def scn_note_def scn_cert_def scn_accusation_def
  scn_gossip_note_def scn_stored_accusation_def idL_def idA_def idB_def idC_def idD_def idX_def scn_dist_def

lemmas acc_defs = evalAccusation_def getLivePeer_def getViewPeer_def getNote_def getAccusation_def
  setAccusation_def timerExist_def startTimer_def setEpoch_def Rebuttal_def localEpoch_def Let_def

lemmas note_defs = evalNote_def getLivePeer_def getViewPeer_def getNote_def getAccusation_def
  setNote_def addLivePeer_def removeAccusation_def deleteTimeout_def Let_def

lemmas spread_defs = Spread_def addCaller_def viewPeerExist_def allocPeer_def addViewPeer_def
  addLivePeer_def Let_def

lemma word_lt_succ: "(x :: 64 word) \<noteq> - 1 \<Longrightarrow> x < x + 1"
  by (metis inc_less_eq_triv_imp linorder_less_linear word_le_less_eq)

subsection \<open>An accusation against the local node\<close>

text \<open>
  Claim C1, as amended. When the accusation names the local node, \<open>evalAccusation\<close> calls
  \<open>n.setEpoch(epoch + 1)\<close> with the epoch of the accusation and never reads the local
  epoch: the local epoch becomes the accusation's epoch plus one (modulo \<open>2^64\<close>), the
  local note is signed again for that epoch, the rebuttal is triggered once, and
  nothing else changes, so no accusation is recorded. When the local epoch is at most
  the accusation's epoch and that epoch is not the largest \<open>uint64\<close>, the new epoch is
  \<open>max currentEpoch epoch + 1\<close> and is above the old one; local epoch 5 and accusation
  epoch 5 give 6. An accusation whose epoch is below the local epoch sets the local
  epoch back, to that epoch plus one.
\<close>

theorem self_accusation:
  assumes "acc_Accused a = peerId (self n)"
  shows "snd (evalAccusation env n a) = Rebutted \<and>
     localEpoch (fst (evalAccusation env n a)) = Some (acc_Epoch a + 1) \<and>
     recentNote (self (fst (evalAccusation env n a))) =
       Some \<lparr>n_peerId = peerId (self n), n_epoch = acc_Epoch a + 1,
             n_signature = sign env (NotePayload (acc_Epoch a + 1) (peerId (self n)))\<rparr> \<and>
     rebuttals (fst (evalAccusation env n a)) = rebuttals n + 1 \<and>
     accusation (self (fst (evalAccusation env n a))) = accusation (self n) \<and>
     peers (fst (evalAccusation env n a)) = peers n \<and>
     viewMap (fst (evalAccusation env n a)) = viewMap n \<and>
     liveMap (fst (evalAccusation env n a)) = liveMap n \<and>
     timeoutMap (fst (evalAccusation env n a)) = timeoutMap n \<and>
     (\<forall>e. localEpoch n = Some e \<and> e \<le> acc_Epoch a \<and> acc_Epoch a \<noteq> - 1 \<longrightarrow>
        localEpoch (fst (evalAccusation env n a)) = Some (max e (acc_Epoch a) + 1) \<and>
        e < acc_Epoch a + 1)"
proof -
  have r: "evalAccusation env n a = (Rebuttal (setEpoch env n (acc_Epoch a + 1)), Rebutted)"
    using assms by (simp add: evalAccusation_def Let_def)
  have mono: "e < acc_Epoch a + 1" if "e \<le> acc_Epoch a" "acc_Epoch a \<noteq> - 1" for e
    using that word_lt_succ[of "acc_Epoch a"] by simp
  show ?thesis
    unfolding r using mono by (simp add: Rebuttal_def setEpoch_def localEpoch_def max_def)
qed

text \<open>
  The spec's scenario S1: local id \<open>0x01\<close>, local epoch 5, an accusation against
  \<open>0x01\<close> at epoch 5.
\<close>

theorem self_accusation_witness:
  "acc_Accused (scn_accusation idL idD 5) = peerId (self (scn_node 5 None None)) \<and>
   localEpoch (scn_node 5 None None) = Some 5 \<and>
   localEpoch (fst (evalAccusation scn_env (scn_node 5 None None) (scn_accusation idL idD 5))) = Some 6 \<and>
   map_option n_signature (recentNote (self (fst (evalAccusation scn_env (scn_node 5 None None) (scn_accusation idL idD 5)))))
     = Some (sign scn_env (NotePayload 6 idL)) \<and>
   accusation (self (fst (evalAccusation scn_env (scn_node 5 None None) (scn_accusation idL idD 5)))) = None"
proof -
  have h: "acc_Accused (scn_accusation idL idD 5) = peerId (self (scn_node 5 None None))"
    by (simp add: scn_defs)
  have l: "localEpoch (scn_node 5 None None) = Some 5"
    by (simp add: scn_defs localEpoch_def)
  show ?thesis
    using h l self_accusation[OF h, of scn_env]
    by (simp add: scn_defs)
qed

text \<open>
  Claim C1 as stated fails: with local epoch 10, an accusation against the local node
  at epoch 3 sets the local epoch to 4, which is neither \<open>max 10 3 + 1\<close> nor at least
  the old epoch.
\<close>

theorem self_accusation_counterexample:
  "acc_Accused (scn_accusation idL idD 3) = peerId (self (scn_node 10 None None)) \<and>
   localEpoch (scn_node 10 None None) = Some 10 \<and>
   localEpoch (fst (evalAccusation scn_env (scn_node 10 None None) (scn_accusation idL idD 3))) = Some 4 \<and>
   (4 :: uint64) \<noteq> max 10 3 + 1 \<and> (4 :: uint64) < 10"
  by (simp add: scn_defs acc_defs)

subsection \<open>A note for an accused peer\<close>

text \<open>
  What \<open>evalNote\<close> does for a validly signed note of a peer in the view that has an
  accusation: a note whose epoch is above the accusation's removes the timeout and the
  accusation and puts the peer into the live set; any other note changes nothing. In
  neither case is \<open>p.setNote\<close> called: the stored note stays as it was.
\<close>

lemma evalNote_rebuttal:
  assumes "viewMap n (note_Id g) = Some p"
    and "validateSignature env (sig_r (note_Signature g)) (sig_s (note_Signature g))
           (NotePayload (note_Epoch g) (note_Id g)) (publicKey (peers n p)) = Inr True"
    and "accusation (peers n p) = Some pa"
  shows "evalNote env n g =
     (if a_epoch pa < note_Epoch g
      then (n\<lparr>peers := (peers n)(p := (peers n p)\<lparr>accusation := None\<rparr>),
              liveMap := (liveMap n)(key (peers n p) \<mapsto> p),
              timeoutMap := (timeoutMap n)(note_Id g := None)\<rparr>, NoteRebuttal)
      else (n, NoteNoRebuttal))"
  using assms by (simp add: note_defs)

text \<open>
  Claim C2, the failing input (the spec's scenario S5). B has the stored note of epoch
  6 and an accusation at epoch 7; a valid note of B at epoch 8 arrives. The accusation
  is cleared, the timeout is removed and B is in the live set, but the stored note of B
  is still the note of epoch 6: the rebuttal note is not stored, where the branch for a
  peer without accusation stores every newer note.
\<close>

theorem rebuttal_note_not_stored:
  "storedEpoch (scn_node 1 (Some (scn_note idB 6)) (Some (scn_stored_accusation idB idD 7))) 1 = Some 6 \<and>
   map_option a_epoch (accusation (peers (scn_node 1 (Some (scn_note idB 6)) (Some (scn_stored_accusation idB idD 7))) 1)) = Some 7 \<and>
   snd (evalNote scn_env (scn_node 1 (Some (scn_note idB 6)) (Some (scn_stored_accusation idB idD 7)))
          (scn_gossip_note idB 8)) = NoteRebuttal \<and>
   accusation (peers (fst (evalNote scn_env (scn_node 1 (Some (scn_note idB 6)) (Some (scn_stored_accusation idB idD 7)))
          (scn_gossip_note idB 8))) 1) = None \<and>
   timeoutMap (fst (evalNote scn_env (scn_node 1 (Some (scn_note idB 6)) (Some (scn_stored_accusation idB idD 7)))
          (scn_gossip_note idB 8))) idB = None \<and>
   liveMap (fst (evalNote scn_env (scn_node 1 (Some (scn_note idB 6)) (Some (scn_stored_accusation idB idD 7)))
          (scn_gossip_note idB 8))) idB = Some 1 \<and>
   storedEpoch (fst (evalNote scn_env (scn_node 1 (Some (scn_note idB 6)) (Some (scn_stored_accusation idB idD 7)))
          (scn_gossip_note idB 8))) 1 = Some 6"
  by (simp add: scn_defs note_defs storedEpoch_def)

subsection \<open>Stale accusations\<close>

text \<open>
  Claim C3, as amended. The accused is looked up in the live set, and the guard is
  \<open>peerNote == nil || epoch > peerNote.epoch\<close>. An accusation against a peer other than
  the local node is dropped as stale iff the accused is in the live set and has a
  current note whose epoch is greater than or equal to the accusation's epoch: an
  accusation whose epoch equals the epoch of the accused's note is dropped. An
  accusation against a peer that is not in the live set is dropped. In both cases the
  state is unchanged.
\<close>

theorem accusation_stale_iff:
  assumes "acc_Accused a \<noteq> peerId (self n)"
  shows "(snd (evalAccusation env n a) = Stale \<longleftrightarrow>
            (\<exists>p pn. liveMap n (acc_Accused a) = Some p \<and> recentNote (peers n p) = Some pn
                    \<and> acc_Epoch a \<le> n_epoch pn)) \<and>
         (snd (evalAccusation env n a) = AccusedNotLive \<longleftrightarrow> liveMap n (acc_Accused a) = None) \<and>
         (snd (evalAccusation env n a) = Stale \<or> snd (evalAccusation env n a) = AccusedNotLive
            \<longrightarrow> fst (evalAccusation env n a) = n)"
  using assms
  by (auto simp: evalAccusation_def getLivePeer_def getNote_def getAccusation_def setAccusation_def
        Let_def not_less
      split: option.splits sum.splits if_splits)

theorem accusation_stale_witness:
  "acc_Accused (scn_accusation idB idD 5) \<noteq> peerId (self (scn_node 1 (Some (scn_note idB 6)) None)) \<and>
   snd (evalAccusation scn_env (scn_node 1 (Some (scn_note idB 6)) None) (scn_accusation idB idD 5)) = Stale \<and>
   fst (evalAccusation scn_env (scn_node 1 (Some (scn_note idB 6)) None) (scn_accusation idB idD 5))
     = scn_node 1 (Some (scn_note idB 6)) None"
proof -
  let ?n = "scn_node 1 (Some (scn_note idB 6)) None"
  let ?a = "scn_accusation idB idD 5"
  have h: "acc_Accused ?a \<noteq> peerId (self ?n)" by (simp add: scn_defs)
  have "liveMap ?n (acc_Accused ?a) = Some 1 \<and> recentNote (peers ?n 1) = Some (scn_note idB 6)
          \<and> acc_Epoch ?a \<le> n_epoch (scn_note idB 6)"
    by (simp add: scn_defs)
  then have "\<exists>p pn. liveMap ?n (acc_Accused ?a) = Some p \<and> recentNote (peers ?n p) = Some pn
                    \<and> acc_Epoch ?a \<le> n_epoch pn" by blast
  then show ?thesis using h accusation_stale_iff[OF h, of scn_env] by blast
qed

text \<open>
  Claim C3 as stated fails: B is live with a note of epoch 7; an accusation against B
  at epoch 7 is dropped as stale, and the same accusation at epoch 8 is recorded.
\<close>

theorem accusation_equal_epoch_counterexample:
  "liveMap (scn_node 1 (Some (scn_note idB 7)) None) idB = Some 1 \<and>
   storedEpoch (scn_node 1 (Some (scn_note idB 7)) None) 1 = Some 7 \<and>
   snd (evalAccusation scn_env (scn_node 1 (Some (scn_note idB 7)) None) (scn_accusation idB idD 7)) = Stale \<and>
   snd (evalAccusation scn_env (scn_node 1 (Some (scn_note idB 7)) None) (scn_accusation idB idD 8)) = Added"
  by (simp add: scn_defs acc_defs storedEpoch_def)

subsection \<open>The rank of the stored accuser\<close>

lemma evalAccusation_added:
  assumes "snd (evalAccusation env n a) = Added" "getLivePeer n (acc_Accused a) = Some p"
    and "getLivePeer n (acc_Accuser a) = Some q"
  shows "storedAccuser (fst (evalAccusation env n a)) p = Some (peerId (peers n q)) \<and>
         (\<forall>oa. storedAccuser n p = Some oa \<longrightarrow> isHigherRank env n (peerId (peers n q)) oa)"
  using assms
  by (auto simp: acc_defs storedAccuser_def split: option.splits sum.splits if_splits)

lemma evalAccusation_lower_rank:
  assumes "snd (evalAccusation env n a) = LowerRank" "getLivePeer n (acc_Accused a) = Some p"
    and "getLivePeer n (acc_Accuser a) = Some q"
  shows "fst (evalAccusation env n a) = n \<and>
         (\<exists>oa. storedAccuser n p = Some oa \<and> \<not> isHigherRank env n (peerId (peers n q)) oa)"
  using assms
  by (auto simp: acc_defs storedAccuser_def split: option.splits sum.splits if_splits)

lemma evalAccusation_accuser_live:
  assumes "snd (evalAccusation env n a) = Added \<or> snd (evalAccusation env n a) = LowerRank"
  shows "\<exists>q. getLivePeer n (acc_Accuser a) = Some q"
  using assms
  by (auto simp: acc_defs split: option.splits sum.splits if_splits)

lemma evalAccusation_other:
  assumes "\<not> (snd (evalAccusation env n a) = Added \<and> getLivePeer n (acc_Accused a) = Some p)"
  shows "storedAccuser (fst (evalAccusation env n a)) p = storedAccuser n p"
  using assms
  by (auto simp: acc_defs storedAccuser_def split: option.splits sum.splits if_splits)

lemma evalAccusation_rank_step:
  assumes rank: "\<And>m i j. isHigherRank env m i j \<longleftrightarrow> dist i < dist j"
    and "storedAccuser n p = Some oa" "dist oa \<le> (d :: nat)"
  shows "\<exists>f. storedAccuser (fst (evalAccusation env n a)) p = Some f \<and> dist f \<le> d"
proof (cases "snd (evalAccusation env n a) = Added \<and> getLivePeer n (acc_Accused a) = Some p")
  case True
  then obtain q where q: "getLivePeer n (acc_Accuser a) = Some q"
    using evalAccusation_accuser_live by blast
  have "storedAccuser (fst (evalAccusation env n a)) p = Some (peerId (peers n q))"
    and "isHigherRank env n (peerId (peers n q)) oa"
    using evalAccusation_added[of env n a p q] True q assms(2) by auto
  then show ?thesis using rank assms(3) by auto
next
  case False
  then show ?thesis using evalAccusation_other[of env n a p] assms(2,3) by auto
qed

lemma evalAccusation_rank_head:
  assumes rank: "\<And>m i j. isHigherRank env m i j \<longleftrightarrow> dist i < (dist j :: nat)"
    and "getLivePeer n (acc_Accused a) = Some p"
    and "snd (evalAccusation env n a) = Added \<or> snd (evalAccusation env n a) = LowerRank"
    and "getLivePeer n (acc_Accuser a) = Some q"
  shows "\<exists>f. storedAccuser (fst (evalAccusation env n a)) p = Some f \<and> dist f \<le> dist (peerId (peers n q))"
proof (cases "snd (evalAccusation env n a) = Added")
  case True
  then show ?thesis using evalAccusation_added[of env n a p q] assms(2,4) by auto
next
  case False
  then have "snd (evalAccusation env n a) = LowerRank" using assms(3) by simp
  then show ?thesis using evalAccusation_lower_rank[of env n a p q] assms(2,4) rank
    by (auto simp: not_less)
qed

lemma mergeAccusations_rank:
  assumes rank: "\<And>m i j. isHigherRank env m i j \<longleftrightarrow> dist i < (dist j :: nat)"
  shows "(\<forall>oa d. storedAccuser n p = Some oa \<and> dist oa \<le> d \<longrightarrow>
            (\<exists>f. storedAccuser (mergeAccusations env n accs) p = Some f \<and> dist f \<le> d)) \<and>
         (\<forall>i\<in>set (competingAccusers env n p accs).
            \<exists>f. storedAccuser (mergeAccusations env n accs) p = Some f \<and> dist f \<le> dist i)"
proof (induction accs arbitrary: n)
  case Nil
  then show ?case by simp
next
  case (Cons a accs)
  let ?n1 = "fst (evalAccusation env n a)"
  note ih = Cons.IH[of ?n1]
  have keep: "\<exists>f. storedAccuser (mergeAccusations env n (a # accs)) p = Some f \<and> dist f \<le> d"
    if h1: "storedAccuser n p = Some oa" and h2: "dist oa \<le> d" for oa d
  proof -
    obtain f1 where "storedAccuser ?n1 p = Some f1" "dist f1 \<le> d"
      using evalAccusation_rank_step[OF rank h1 h2] by blast
    then show ?thesis using ih by auto
  qed
  have comp: "\<exists>f. storedAccuser (mergeAccusations env n (a # accs)) p = Some f \<and> dist f \<le> dist i"
    if mem: "i \<in> set (competingAccusers env n p (a # accs))" for i
  proof (cases "i \<in> set (competingAccusers env ?n1 p accs)")
    case True
    then show ?thesis using ih by auto
  next
    case False
    then have hdm: "i \<in> set (if getLivePeer n (acc_Accused a) = Some p
         \<and> (snd (evalAccusation env n a) = Added \<or> snd (evalAccusation env n a) = LowerRank)
      then (case getLivePeer n (acc_Accuser a) of
              Some q \<Rightarrow> [peerId (peers n q)]
            | None \<Rightarrow> [])
      else [])"
      using mem unfolding competingAccusers.simps set_append by blast
    have c: "getLivePeer n (acc_Accused a) = Some p
         \<and> (snd (evalAccusation env n a) = Added \<or> snd (evalAccusation env n a) = LowerRank)"
    proof (rule ccontr)
      assume "\<not> (getLivePeer n (acc_Accused a) = Some p
         \<and> (snd (evalAccusation env n a) = Added \<or> snd (evalAccusation env n a) = LowerRank))"
      then show False using hdm by (simp only: if_False list.set empty_iff)
    qed
    have hd1: "getLivePeer n (acc_Accused a) = Some p" using c by blast
    have hd2: "snd (evalAccusation env n a) = Added \<or> snd (evalAccusation env n a) = LowerRank"
      using c by blast
    obtain q where q: "getLivePeer n (acc_Accuser a) = Some q"
      using evalAccusation_accuser_live[OF hd2] by blast
    have i: "i = peerId (peers n q)" using hdm c q by (simp only: if_True option.case list.set) simp
    note hd = hd1 hd2
    obtain f1 where "storedAccuser ?n1 p = Some f1" "dist f1 \<le> dist i"
      using evalAccusation_rank_head[OF rank hd q] i by blast
    then show ?thesis using ih by auto
  qed
  show ?case using keep comp by blast
qed

lemma evalAccusation_not_higher_dropped:
  assumes "acc_Accused a \<noteq> peerId (self n)" "getLivePeer n (acc_Accused a) = Some p"
    and "case recentNote (peers n p) of None \<Rightarrow> True | Some pn \<Rightarrow> n_epoch pn < acc_Epoch a"
    and "getLivePeer n (acc_Accuser a) = Some q" "storedAccuser n p = Some oa"
    and "\<not> isHigherRank env n (peerId (peers n q)) oa"
  shows "evalAccusation env n a = (n, LowerRank)"
  using assms
  by (auto simp: acc_defs storedAccuser_def split: option.splits)

text \<open>
  Claim C4, as amended. An accusation carries no ring index and a peer has one slot
  for an accusation, so a peer holds at most one accusation, whatever the ring. Let
  the rank be given by a distance (\<open>isHigherRank a b\<close> iff \<open>a\<close> is nearer than \<open>b\<close>). In any
  sequence of \<open>evalAccusation\<close> calls, an accusation that a peer holds stays or is
  replaced by one from a strictly nearer accuser; so after the sequence the peer holds
  an accusation whose accuser is at most as far as the accuser it held before the
  sequence and as every accuser whose accusation against the peer was stored or was
  dropped by the rank comparison during the sequence. A newcomer that reaches the rank
  comparison (accused and accuser in the live set, epoch above the accused's note) from
  an accuser that is not strictly nearer than the stored accuser is dropped, and the
  state is unchanged. An accusation dropped before the rank comparison (stale, accuser
  not live) or after it does not count.
\<close>

theorem accusation_rank_order:
  assumes rank: "\<And>m i j. isHigherRank env m i j \<longleftrightarrow> dist i < (dist j :: nat)"
  shows "(\<forall>oa. storedAccuser n p = Some oa \<longrightarrow>
            (\<exists>f. storedAccuser (mergeAccusations env n accs) p = Some f \<and> dist f \<le> dist oa)) \<and>
         (\<forall>i\<in>set (competingAccusers env n p accs).
            \<exists>f. storedAccuser (mergeAccusations env n accs) p = Some f \<and> dist f \<le> dist i) \<and>
         (acc_Accused a \<noteq> peerId (self n) \<and> getLivePeer n (acc_Accused a) = Some p \<and>
          (case recentNote (peers n p) of None \<Rightarrow> True | Some pn \<Rightarrow> n_epoch pn < acc_Epoch a) \<and>
          getLivePeer n (acc_Accuser a) = Some q \<and> storedAccuser n p = Some oa \<and>
          dist oa \<le> dist (peerId (peers n q))
          \<longrightarrow> evalAccusation env n a = (n, LowerRank))"
proof (intro conjI)
  show "\<forall>oa. storedAccuser n p = Some oa \<longrightarrow>
            (\<exists>f. storedAccuser (mergeAccusations env n accs) p = Some f \<and> dist f \<le> dist oa)"
    using mergeAccusations_rank[OF rank, of n p accs] by blast
  show "\<forall>i\<in>set (competingAccusers env n p accs).
            \<exists>f. storedAccuser (mergeAccusations env n accs) p = Some f \<and> dist f \<le> dist i"
    using mergeAccusations_rank[OF rank, of n p accs] by blast
  show "acc_Accused a \<noteq> peerId (self n) \<and> getLivePeer n (acc_Accused a) = Some p \<and>
          (case recentNote (peers n p) of None \<Rightarrow> True | Some pn \<Rightarrow> n_epoch pn < acc_Epoch a) \<and>
          getLivePeer n (acc_Accuser a) = Some q \<and> storedAccuser n p = Some oa \<and>
          dist oa \<le> dist (peerId (peers n q))
          \<longrightarrow> evalAccusation env n a = (n, LowerRank)"
    using evalAccusation_not_higher_dropped[of a n p q oa env] rank by (auto simp: not_less)
qed

text \<open>
  The spec's scenario S4: B holds no accusation; the accusation of C is recorded, then
  the accusation of the nearer D replaces it.
\<close>

theorem accusation_rank_order_witness:
  "(\<forall>m i j. isHigherRank scn_env m i j \<longleftrightarrow> scn_dist i < scn_dist j) \<and>
   competingAccusers scn_env (scn_node 1 (Some (scn_note idB 6)) None) 1
      [scn_accusation idB idC 7, scn_accusation idB idD 7] = [idC, idD] \<and>
   storedAccuser (mergeAccusations scn_env (scn_node 1 (Some (scn_note idB 6)) None)
      [scn_accusation idB idC 7, scn_accusation idB idD 7]) 1 = Some idD \<and>
   (\<exists>f. storedAccuser (mergeAccusations scn_env (scn_node 1 (Some (scn_note idB 6)) None)
      [scn_accusation idB idC 7, scn_accusation idB idD 7]) 1 = Some f \<and> scn_dist f \<le> scn_dist idC)"
proof -
  let ?n = "scn_node 1 (Some (scn_note idB 6)) None"
  let ?accs = "[scn_accusation idB idC 7, scn_accusation idB idD 7]"
  have rank: "\<And>m i j. isHigherRank scn_env m i j \<longleftrightarrow> scn_dist i < scn_dist j"
    by (simp add: scn_env_def)
  have comp: "competingAccusers scn_env ?n 1 ?accs = [idC, idD]"
    by (simp add: scn_defs acc_defs)
  have st: "storedAccuser (mergeAccusations scn_env ?n ?accs) 1 = Some idD"
    by (simp add: scn_defs acc_defs storedAccuser_def)
  have "\<forall>i\<in>set (competingAccusers scn_env ?n 1 ?accs).
          \<exists>f. storedAccuser (mergeAccusations scn_env ?n ?accs) 1 = Some f \<and> scn_dist f \<le> scn_dist i"
    using accusation_rank_order[of scn_env scn_dist ?n 1 ?accs, OF rank] by blast
  then have "\<exists>f. storedAccuser (mergeAccusations scn_env ?n ?accs) 1 = Some f \<and> scn_dist f \<le> scn_dist idC"
    unfolding comp by simp
  then show ?thesis using rank comp st by blast
qed

text \<open>
  Claim C4 as stated fails: B holds the accusation of C; an accusation against B from
  D, which ranks higher than C, arrives with a stale epoch and is dropped. After the
  call the stored accusation is from C, whose rank is worse than that of the accuser D
  that was seen.
\<close>

theorem stale_higher_ranked_accuser_counterexample:
  "storedAccuser (scn_node 1 (Some (scn_note idB 6)) (Some (scn_stored_accusation idB idC 7))) 1 = Some idC \<and>
   snd (evalAccusation scn_env (scn_node 1 (Some (scn_note idB 6)) (Some (scn_stored_accusation idB idC 7)))
          (scn_accusation idB idD 6)) = Stale \<and>
   storedAccuser (mergeAccusations scn_env
          (scn_node 1 (Some (scn_note idB 6)) (Some (scn_stored_accusation idB idC 7)))
          [scn_accusation idB idD 6]) 1 = Some idC \<and>
   isHigherRank scn_env (scn_node 1 (Some (scn_note idB 6)) (Some (scn_stored_accusation idB idC 7))) idD idC"
  by (simp add: scn_defs acc_defs storedAccuser_def)

subsection \<open>Notes for a peer without accusation\<close>

lemma evalNote_unaccused:
  assumes "viewMap n (note_Id g) = Some p"
    and "validateSignature env (sig_r (note_Signature g)) (sig_s (note_Signature g))
           (NotePayload (note_Epoch g) (note_Id g)) (publicKey (peers n p)) = Inr True"
    and "accusation (peers n p) = None"
  shows "evalNote env n g =
     (if (case recentNote (peers n p) of None \<Rightarrow> True | Some cn \<Rightarrow> n_epoch cn < note_Epoch g)
      then (n\<lparr>peers := (peers n)(p := (peers n p)\<lparr>recentNote :=
                  Some \<lparr>n_peerId = peerId (peers n p), n_epoch = note_Epoch g,
                        n_signature = \<lparr>sig_r = sig_r (note_Signature g),
                                       sig_s = sig_s (note_Signature g)\<rparr>\<rparr>\<rparr>),
              liveMap := (if liveMap n (note_Id g) = None
                          then (liveMap n)(key (peers n p) \<mapsto> p) else liveMap n)\<rparr>, NoteStored)
      else (n, NoteNotNewer))"
  using assms by (simp add: note_defs)

lemma evalNote_storedEpoch:
  "storedEpoch (fst (evalNote env n g)) q =
     (if getViewPeer n (note_Id g) = Some q \<and> snd (evalNote env n g) = NoteStored
      then Some (note_Epoch g) else storedEpoch n q)"
  by (auto simp: note_defs storedEpoch_def split: option.splits sum.splits)

lemma evalNote_stored_newer:
  "getViewPeer n (note_Id g) = Some q \<Longrightarrow> snd (evalNote env n g) = NoteStored \<Longrightarrow>
   storedEpoch n q = Some c \<Longrightarrow> c < note_Epoch g"
  by (auto simp: note_defs storedEpoch_def split: option.splits sum.splits if_splits)

lemma evalNotes_storedEpoch:
  "storedEpoch (evalNotes env n gs) p =
     (if set_option (storedEpoch n p) \<union> set (acceptedEpochs env n p gs) = {} then None
      else Some (Max (set_option (storedEpoch n p) \<union> set (acceptedEpochs env n p gs))))"
proof (induction gs arbitrary: n)
  case Nil
  then show ?case by (cases "storedEpoch n p") simp_all
next
  case (Cons g gs)
  let ?n1 = "fst (evalNote env n g)"
  let ?R = "set (acceptedEpochs env ?n1 p gs)"
  have fin: "finite ?R" by simp
  show ?case
  proof (cases "getViewPeer n (note_Id g) = Some p \<and> snd (evalNote env n g) = NoteStored")
    case True
    have s1: "storedEpoch ?n1 p = Some (note_Epoch g)"
      using True by (simp add: evalNote_storedEpoch)
    have acc: "acceptedEpochs env n p (g # gs) = note_Epoch g # acceptedEpochs env ?n1 p gs"
      using True by simp
    have ih: "storedEpoch (evalNotes env ?n1 gs) p = Some (Max (insert (note_Epoch g) ?R))"
      using Cons.IH[of ?n1] s1 by simp
    show ?thesis
    proof (cases "storedEpoch n p")
      case None
      then show ?thesis using ih acc by simp
    next
      case (Some c)
      have lt: "c < note_Epoch g" using evalNote_stored_newer True Some by blast
      have m: "Max (insert c (insert (note_Epoch g) ?R)) = max c (Max (insert (note_Epoch g) ?R))"
        using fin by (intro Max_insert) auto
      have ge: "note_Epoch g \<le> Max (insert (note_Epoch g) ?R)"
        using fin by (intro Max_ge) auto
      have "c \<le> Max (insert (note_Epoch g) ?R)" using lt ge by order
      then have "Max (insert c (insert (note_Epoch g) ?R)) = Max (insert (note_Epoch g) ?R)"
        unfolding m by (rule max_absorb2)
      then have f: "storedEpoch (evalNotes env ?n1 gs) p
            = Some (Max (insert c (insert (note_Epoch g) ?R)))"
        using ih by (simp only:)
      have E: "set_option (storedEpoch n p) \<union> set (acceptedEpochs env n p (g # gs))
            = insert c (insert (note_Epoch g) ?R)"
        unfolding acc Some by auto
      have s: "evalNotes env n (g # gs) = evalNotes env ?n1 gs" by simp
      show ?thesis unfolding E s f by (simp only: insert_not_empty if_False)
    qed
  next
    case False
    have s1: "storedEpoch ?n1 p = storedEpoch n p"
      using False evalNote_storedEpoch[of env n g p] by auto
    have acc: "acceptedEpochs env n p (g # gs) = acceptedEpochs env ?n1 p gs"
      using False by auto
    show ?thesis using Cons.IH[of ?n1] s1 acc by simp
  qed
qed

text \<open>
  \<open>mergeNotes\<close> is such a sequence: the calls of \<open>evalNote\<close> on the notes of the message
  that do not name the local node.
\<close>

lemma evalNote_self: "self (fst (evalNote env n g)) = self n"
  by (auto simp: note_defs split: option.splits sum.splits)

lemma mergeNotes_evalNotes:
  "mergeNotes env n gs = evalNotes env n (filter (\<lambda>g. note_Id g \<noteq> peerId (self n)) gs)"
proof (induction gs arbitrary: n)
  case Nil
  then show ?case by simp
next
  case (Cons g gs)
  show ?case
  proof (cases "peerId (self n) = note_Id g")
    case True
    then show ?thesis using Cons.IH[of n] by simp
  next
    case False
    then show ?thesis using Cons.IH[of "fst (evalNote env n g)"] by (simp add: evalNote_self)
  qed
qed

text \<open>
  Claim C5. For a note with a valid signature of a peer in the view that has no
  accusation: the note is stored iff the peer has no note or a note of strictly
  smaller epoch; when it is stored, the peer's note is replaced by it, the peer is put
  into the live set if its id was not there, and nothing else changes; when it is not
  stored, the state is unchanged. And for every sequence of \<open>evalNote\<close> calls and every
  peer object: the epoch of the stored note after the sequence is the maximum of the
  epoch stored before (if any) and the epochs of the notes the sequence stored for
  that peer; there is no stored note only if there was none and none was stored.
\<close>

theorem note_acceptance:
  "(viewMap n (note_Id g) = Some p \<and>
    validateSignature env (sig_r (note_Signature g)) (sig_s (note_Signature g))
       (NotePayload (note_Epoch g) (note_Id g)) (publicKey (peers n p)) = Inr True \<and>
    accusation (peers n p) = None \<longrightarrow>
      (snd (evalNote env n g) = NoteStored \<longleftrightarrow>
         (case recentNote (peers n p) of None \<Rightarrow> True | Some cn \<Rightarrow> n_epoch cn < note_Epoch g)) \<and>
      (snd (evalNote env n g) = NoteStored \<longrightarrow>
         fst (evalNote env n g) =
           n\<lparr>peers := (peers n)(p := (peers n p)\<lparr>recentNote :=
                  Some \<lparr>n_peerId = peerId (peers n p), n_epoch = note_Epoch g,
                        n_signature = \<lparr>sig_r = sig_r (note_Signature g),
                                       sig_s = sig_s (note_Signature g)\<rparr>\<rparr>\<rparr>),
              liveMap := (if liveMap n (note_Id g) = None
                          then (liveMap n)(key (peers n p) \<mapsto> p) else liveMap n)\<rparr>) \<and>
      (snd (evalNote env n g) \<noteq> NoteStored \<longrightarrow> fst (evalNote env n g) = n)) \<and>
   storedEpoch (evalNotes env n gs) q =
     (if set_option (storedEpoch n q) \<union> set (acceptedEpochs env n q gs) = {} then None
      else Some (Max (set_option (storedEpoch n q) \<union> set (acceptedEpochs env n q gs))))"
proof
  show "viewMap n (note_Id g) = Some p \<and>
    validateSignature env (sig_r (note_Signature g)) (sig_s (note_Signature g))
       (NotePayload (note_Epoch g) (note_Id g)) (publicKey (peers n p)) = Inr True \<and>
    accusation (peers n p) = None \<longrightarrow>
      (snd (evalNote env n g) = NoteStored \<longleftrightarrow>
         (case recentNote (peers n p) of None \<Rightarrow> True | Some cn \<Rightarrow> n_epoch cn < note_Epoch g)) \<and>
      (snd (evalNote env n g) = NoteStored \<longrightarrow>
         fst (evalNote env n g) =
           n\<lparr>peers := (peers n)(p := (peers n p)\<lparr>recentNote :=
                  Some \<lparr>n_peerId = peerId (peers n p), n_epoch = note_Epoch g,
                        n_signature = \<lparr>sig_r = sig_r (note_Signature g),
                                       sig_s = sig_s (note_Signature g)\<rparr>\<rparr>\<rparr>),
              liveMap := (if liveMap n (note_Id g) = None
                          then (liveMap n)(key (peers n p) \<mapsto> p) else liveMap n)\<rparr>) \<and>
      (snd (evalNote env n g) \<noteq> NoteStored \<longrightarrow> fst (evalNote env n g) = n)"
  proof
    assume h: "viewMap n (note_Id g) = Some p \<and>
      validateSignature env (sig_r (note_Signature g)) (sig_s (note_Signature g))
         (NotePayload (note_Epoch g) (note_Id g)) (publicKey (peers n p)) = Inr True \<and>
      accusation (peers n p) = None"
    show "(snd (evalNote env n g) = NoteStored \<longleftrightarrow>
         (case recentNote (peers n p) of None \<Rightarrow> True | Some cn \<Rightarrow> n_epoch cn < note_Epoch g)) \<and>
      (snd (evalNote env n g) = NoteStored \<longrightarrow>
         fst (evalNote env n g) =
           n\<lparr>peers := (peers n)(p := (peers n p)\<lparr>recentNote :=
                  Some \<lparr>n_peerId = peerId (peers n p), n_epoch = note_Epoch g,
                        n_signature = \<lparr>sig_r = sig_r (note_Signature g),
                                       sig_s = sig_s (note_Signature g)\<rparr>\<rparr>\<rparr>),
              liveMap := (if liveMap n (note_Id g) = None
                          then (liveMap n)(key (peers n p) \<mapsto> p) else liveMap n)\<rparr>) \<and>
      (snd (evalNote env n g) \<noteq> NoteStored \<longrightarrow> fst (evalNote env n g) = n)"
      using h evalNote_unaccused[of n g p env] by (simp split: if_splits)
  qed
  show "storedEpoch (evalNotes env n gs) q =
     (if set_option (storedEpoch n q) \<union> set (acceptedEpochs env n q gs) = {} then None
      else Some (Max (set_option (storedEpoch n q) \<union> set (acceptedEpochs env n q gs))))"
    by (rule evalNotes_storedEpoch)
qed

theorem note_acceptance_witness:
  "viewMap (scn_node 1 (Some (scn_note idB 6)) None) (note_Id (scn_gossip_note idB 8)) = Some 1 \<and>
   validateSignature scn_env (sig_r (note_Signature (scn_gossip_note idB 8)))
      (sig_s (note_Signature (scn_gossip_note idB 8)))
      (NotePayload (note_Epoch (scn_gossip_note idB 8)) (note_Id (scn_gossip_note idB 8)))
      (publicKey (peers (scn_node 1 (Some (scn_note idB 6)) None) 1)) = Inr True \<and>
   accusation (peers (scn_node 1 (Some (scn_note idB 6)) None) 1) = None \<and>
   snd (evalNote scn_env (scn_node 1 (Some (scn_note idB 6)) None) (scn_gossip_note idB 8)) = NoteStored \<and>
   acceptedEpochs scn_env (scn_node 1 (Some (scn_note idB 6)) None) 1
      [scn_gossip_note idB 8, scn_gossip_note idB 7, scn_gossip_note idB 9] = [8, 9] \<and>
   storedEpoch (evalNotes scn_env (scn_node 1 (Some (scn_note idB 6)) None)
      [scn_gossip_note idB 8, scn_gossip_note idB 7, scn_gossip_note idB 9]) 1 = Some 9"
proof -
  let ?n = "scn_node 1 (Some (scn_note idB 6)) None"
  let ?g = "scn_gossip_note idB 8"
  let ?gs = "[scn_gossip_note idB 8, scn_gossip_note idB 7, scn_gossip_note idB 9]"
  have h1: "viewMap ?n (note_Id ?g) = Some 1" by (simp add: scn_defs)
  have h2: "validateSignature scn_env (sig_r (note_Signature ?g)) (sig_s (note_Signature ?g))
      (NotePayload (note_Epoch ?g) (note_Id ?g)) (publicKey (peers ?n 1)) = Inr True"
    by (simp add: scn_defs)
  have h3: "accusation (peers ?n 1) = None" by (simp add: scn_defs)
  have old: "recentNote (peers ?n 1) = Some (scn_note idB 6)" by (simp add: scn_defs)
  have lt: "n_epoch (scn_note idB 6) < note_Epoch ?g" by (simp add: scn_defs)
  have acc: "acceptedEpochs scn_env ?n 1 ?gs = [8, 9]"
    by (simp add: scn_defs note_defs)
  have st0: "storedEpoch ?n 1 = Some 6" by (simp add: scn_defs storedEpoch_def)
  note t = note_acceptance[of ?n ?g 1 scn_env ?gs 1]
  have stored: "snd (evalNote scn_env ?n ?g) = NoteStored"
    using t h1 h2 h3 old lt by simp
  have "storedEpoch (evalNotes scn_env ?n ?gs) 1 = Some (Max {6, 8, 9})"
    using t unfolding acc st0 by simp
  then have "storedEpoch (evalNotes scn_env ?n ?gs) 1 = Some 9" by simp
  then show ?thesis using h1 h2 h3 stored acc by blast
qed

subsection \<open>\<open>Spread\<close> from a caller that should not be a neighbour\<close>

text \<open>
  Claim C6, as amended. For an authenticated caller whose certificate has a locality
  and for which \<open>shouldBeNeighbours\<close> is false: when the caller is in the view, the state
  is unchanged; when it is not and \<open>newPeer\<close> fails, the call returns
  \<open>errInvalidPeerInformation\<close> and the state is unchanged; when it is not and \<open>newPeer\<close>
  returns a peer, that peer is added to the view and to the live set (\<open>addViewPeer\<close> and
  \<open>addLivePeer\<close>), and nothing else changes. The reply holds the certificates of those
  computed neighbours of the caller that are in the live set. The result does not
  depend on the gossip message: nothing of it is merged.
\<close>

theorem spread_non_neighbour:
  assumes "c = TLSInfo (cert1 # rest)"
    and "\<not> shouldBeNeighbours env n (SubjectKeyId cert1)"
    and "Locality cert1 \<noteq> []"
  shows "(viewMap n (SubjectKeyId cert1) \<noteq> None \<longrightarrow>
            Spread env n c args =
              (Inr (liveCertificates n (findNeighbours env n (SubjectKeyId cert1))), n)) \<and>
         (viewMap n (SubjectKeyId cert1) = None \<and> newPeer env cert1 = Inl e \<longrightarrow>
            Spread env n c args = (Inl errInvalidPeerInformation, n)) \<and>
         (viewMap n (SubjectKeyId cert1) = None \<and> newPeer env cert1 = Inr p \<longrightarrow>
            snd (Spread env n c args) =
              n\<lparr>peers := (peers n)(nextRef n := p), nextRef := nextRef n + 1,
                viewMap := (viewMap n)(key p \<mapsto> nextRef n),
                liveMap := (liveMap n)(key p \<mapsto> nextRef n)\<rparr> \<and>
            fst (Spread env n c args) =
              Inr (liveCertificates (snd (Spread env n c args))
                     (findNeighbours env (snd (Spread env n c args)) (SubjectKeyId cert1))) \<and>
            viewMap (snd (Spread env n c args)) (key p) = Some (nextRef n) \<and>
            liveMap (snd (Spread env n c args)) (key p) = Some (nextRef n)) \<and>
         Spread env n c args = Spread env n c args'"
  using assms by (auto simp: spread_defs split: sum.splits)

theorem spread_non_neighbour_witness:
  "\<not> shouldBeNeighbours scn_env (scn_node 1 None None) (SubjectKeyId (scn_cert idX)) \<and>
   Locality (scn_cert idX) \<noteq> [] \<and>
   viewMap (scn_node 1 None None) (SubjectKeyId (scn_cert idX)) = None \<and>
   newPeer scn_env (scn_cert idX) = Inr (scn_peer idX None None) \<and>
   viewMap (snd (Spread scn_env (scn_node 1 None None) (TLSInfo [scn_cert idX])
       \<lparr>Certificates = [], Notes = [scn_gossip_note idB 9], Accusations = []\<rparr>)) idX = Some 4 \<and>
   liveMap (snd (Spread scn_env (scn_node 1 None None) (TLSInfo [scn_cert idX])
       \<lparr>Certificates = [], Notes = [scn_gossip_note idB 9], Accusations = []\<rparr>)) idX = Some 4 \<and>
   fst (Spread scn_env (scn_node 1 None None) (TLSInfo [scn_cert idX])
       \<lparr>Certificates = [], Notes = [scn_gossip_note idB 9], Accusations = []\<rparr>)
     = Inr [Raw (scn_cert idA), Raw (scn_cert idX)]"
proof -
  let ?n = "scn_node 1 None None"
  let ?args = "\<lparr>Certificates = [], Notes = [scn_gossip_note idB 9], Accusations = []\<rparr>"
  have h1: "TLSInfo [scn_cert idX] = TLSInfo (scn_cert idX # [])" by simp
  have h2: "\<not> shouldBeNeighbours scn_env ?n (SubjectKeyId (scn_cert idX))" by (simp add: scn_defs)
  have h3: "Locality (scn_cert idX) \<noteq> []" by (simp add: scn_defs)
  have h4: "viewMap ?n (SubjectKeyId (scn_cert idX)) = None" by (simp add: scn_defs)
  have h5: "newPeer scn_env (scn_cert idX) = Inr (scn_peer idX None None)" by (simp add: scn_defs)
  have k: "key (scn_peer idX None None) = idX" "nextRef ?n = 4" by (simp_all add: scn_defs)
  note t = spread_non_neighbour[OF h1 h2 h3, where p = "scn_peer idX None None" and args = ?args]
  have v: "viewMap (snd (Spread scn_env ?n (TLSInfo [scn_cert idX]) ?args)) idX = Some 4"
    and l: "liveMap (snd (Spread scn_env ?n (TLSInfo [scn_cert idX]) ?args)) idX = Some 4"
    using t h4 h5 k by auto
  have r: "fst (Spread scn_env ?n (TLSInfo [scn_cert idX]) ?args)
     = Inr [Raw (scn_cert idA), Raw (scn_cert idX)]"
    by (simp add: scn_defs spread_defs getLivePeer_def)
  show ?thesis using h2 h3 h4 h5 v l r by blast
qed

text \<open>
  Claim C6 as stated fails: after \<open>Spread\<close> from the unknown caller X, which should not
  be a neighbour, the stub for X is in the view and in the live set.
\<close>

theorem spread_stub_is_live_counterexample:
  "\<not> shouldBeNeighbours scn_env (scn_node 1 None None) (SubjectKeyId (scn_cert idX)) \<and>
   viewMap (scn_node 1 None None) idX = None \<and>
   liveMap (scn_node 1 None None) idX = None \<and>
   viewMap (snd (Spread scn_env (scn_node 1 None None) (TLSInfo [scn_cert idX])
       \<lparr>Certificates = [], Notes = [], Accusations = []\<rparr>)) idX = Some 4 \<and>
   liveMap (snd (Spread scn_env (scn_node 1 None None) (TLSInfo [scn_cert idX])
       \<lparr>Certificates = [], Notes = [], Accusations = []\<rparr>)) idX = Some 4"
  by (simp add: scn_defs spread_defs)

subsection \<open>\<open>AppendGossipData\<close>\<close>

text \<open>
  Claim C10. The buffer handed to \<open>data.Read\<close> is the nil slice. For every id and every
  reader that keeps the contract of \<open>io.Reader\<close> at that buffer (\<open>0 \<le> n \<le> len(p) = 0\<close>), the
  call returns a non-nil error, the reader's or \<open>errNoData\<close>, and the node's state, and
  with it \<open>gossipDataMap\<close>, is unchanged. Whatever the reader answers, the map is
  unchanged or gets the empty slice at the id: caller data is never stored.
\<close>

theorem append_gossip_data_fails:
  "(reader_contract data 0 \<longrightarrow>
      (\<exists>e. AppendGossipData n id1 data = (Some e, n) \<and> (e = errNoData \<or> snd (data 0) = Some e))) \<and>
   (gossipDataMap (snd (AppendGossipData n id1 data)) = gossipDataMap n \<or>
    gossipDataMap (snd (AppendGossipData n id1 data)) = (gossipDataMap n)(id1 \<mapsto> []))"
  by (auto simp: AppendGossipData_def reader_contract_def Let_def split: prod.splits)

theorem append_gossip_data_fails_witness:
  "reader_contract (\<lambda>k. (0, None)) 0 \<and>
   AppendGossipData (scn_node 1 None None) [7] (\<lambda>k. (0, None)) = (Some errNoData, scn_node 1 None None)"
proof -
  have h: "reader_contract (\<lambda>k. (0, None)) 0" by (simp add: reader_contract_def)
  show ?thesis
    using h append_gossip_data_fails[of "\<lambda>k. (0, None)" "scn_node 1 None None" "[7]"] by auto
qed

end
